theory Spec2Isabelle
  imports Main
begin

section \<open>Characters and strings of the transcript\<close>

text \<open>
  A Python \<open>str\<close> is a sequence of code points. The development models a transcript as a
  \<open>string\<close> whose characters stand for the code points U+0000 to U+00FF, one \<open>char\<close>
  per code point, so that \<open>length\<close>, \<open>take\<close> and indexing count what Python's
  \<open>len\<close>, slicing and indexing count. The predicates of the Unicode database that the
  source uses (\<open>str.isspace\<close>, \<open>str.isupper\<close>, \<open>str.lower\<close>, the classes
  \<open>\s\<close> and \<open>\w\<close> of \<open>re\<close>) are written out on that range.
\<close>

definition in_range :: "nat \<Rightarrow> nat \<Rightarrow> char \<Rightarrow> bool" where
  "in_range lo hi c = (lo \<le> of_char c \<and> (of_char c :: nat) \<le> hi)"

definition isspace :: "char \<Rightarrow> bool" where
  \<comment> \<open>\<open>str.isspace\<close>, the class \<open>\s\<close>, and the separators of \<open>str.split()\<close>\<close>
  "isspace c = (in_range 9 13 c \<or> in_range 28 32 c \<or> of_char c = (133::nat) \<or> of_char c = (160::nat))"

definition isalnum :: "char \<Rightarrow> bool" where
  "isalnum c = (in_range 48 57 c \<or> in_range 65 90 c \<or> in_range 97 122 c
     \<or> of_char c = (170::nat) \<or> in_range 178 179 c \<or> of_char c = (181::nat)
     \<or> in_range 185 186 c \<or> in_range 188 190 c
     \<or> in_range 192 214 c \<or> in_range 216 246 c \<or> in_range 248 255 c)"

definition isalpha :: "char \<Rightarrow> bool" where
  \<comment> \<open>\<open>str.isalpha\<close>: the letters\<close>
  "isalpha c = (in_range 65 90 c \<or> in_range 97 122 c
     \<or> of_char c = (170::nat) \<or> of_char c = (181::nat) \<or> of_char c = (186::nat)
     \<or> in_range 192 214 c \<or> in_range 216 246 c \<or> in_range 248 255 c)"

definition word_char :: "char \<Rightarrow> bool" where
  \<comment> \<open>the class \<open>\w\<close>: alphanumeric or underscore\<close>
  "word_char c = (isalnum c \<or> c = CHR ''_'')"

definition isupper :: "char \<Rightarrow> bool" where
  "isupper c = (in_range 65 90 c \<or> in_range 192 214 c \<or> in_range 216 222 c)"

definition lower_char :: "char \<Rightarrow> char" where
  "lower_char c = (if isupper c then char_of (of_char c + (32::nat)) else c)"

definition upper_char :: "char \<Rightarrow> char" where
  \<comment> \<open>the two letters of the range whose capital lies beyond U+00FF (U+00B5, U+00FF) are
      left in place: no class of the patterns below contains either capital\<close>
  "upper_char c = (if in_range 97 122 c \<or> in_range 224 246 c \<or> in_range 248 254 c
                   then char_of (of_char c - (32::nat)) else c)"

definition lower :: "string \<Rightarrow> string" where
  "lower s = map lower_char s"

text \<open>\<open>str.split()\<close> with no argument: the maximal runs of non-space characters.\<close>

function split :: "string \<Rightarrow> string list" where
  "split s = (case dropWhile isspace s of
                [] \<Rightarrow> []
              | c # cs \<Rightarrow> (c # takeWhile (\<lambda>x. \<not> isspace x) cs)
                          # split (dropWhile (\<lambda>x. \<not> isspace x) cs))"
  by pat_completeness auto
termination
proof (relation "measure length")
  show "wf (measure length)" by simp
next
  fix s :: string and c cs
  assume "dropWhile isspace s = c # cs"
  then have "length (c # cs) \<le> length s"
    by (metis length_dropWhile_le)
  moreover have "length (dropWhile (\<lambda>x. \<not> isspace x) cs) \<le> length cs"
    by (rule length_dropWhile_le)
  ultimately show "(dropWhile (\<lambda>x. \<not> isspace x) cs, s) \<in> measure length"
    by simp
qed

declare split.simps [simp del]

datatype py_error =
    IndexError
  | FileNotFoundError
  | Interrupted   \<comment> \<open>a \<open>KeyboardInterrupt\<close> or \<open>SystemExit\<close> passed on from an external call\<close>

definition first_token :: "string \<Rightarrow> py_error + string" where
  \<comment> \<open>\<open>s.split()[0]\<close>\<close>
  "first_token s = (case split s of [] \<Rightarrow> Inl IndexError | w # _ \<Rightarrow> Inr w)"

definition strip_nonword :: "string \<Rightarrow> string" where
  \<comment> \<open>\<open>re.sub(r'[^\w]', '', s)\<close>\<close>
  "strip_nonword s = filter word_char s"

section \<open>The regular expressions of the priority patterns\<close>

text \<open>
  The five patterns of \<open>priority_patterns\<close> are sequences of single-character classes,
  greedy \<open>+\<close> repetitions of one class, one capturing group and \<open>\b\<close>. They are kept as
  the sequence of matching operations the pattern text denotes, and matched by the
  backtracking search of \<open>re.search\<close> under \<open>re.IGNORECASE\<close>: leftmost start first,
  longest repetition first.
\<close>

datatype cset = Lit char | Range char char | Space

fun cset_match :: "cset \<Rightarrow> char \<Rightarrow> bool" where
  "cset_match (Lit c) x = (lower_char x = lower_char c)"
| "cset_match (Range lo hi) x =
     (in_range (of_char lo) (of_char hi) x
      \<or> in_range (of_char lo) (of_char hi) (lower_char x)
      \<or> in_range (of_char lo) (of_char hi) (upper_char x))"
| "cset_match Space x = isspace x"

definition ascii_letters :: "string \<Rightarrow> bool" where
  \<comment> \<open>strings of the characters that \<open>[A-Z]\<close> and \<open>[a-z]\<close> match under
      \<open>re.IGNORECASE\<close>: the letters A to Z and a to z\<close>
  "ascii_letters s = (\<forall>c\<in>set s. in_range 65 90 c \<or> in_range 97 122 c)"

datatype rx_op = One cset | Rep1 cset | WordB | GroupOpen | GroupClose

type_synonym marks = "nat option \<times> nat option"

definition at_boundary :: "char option \<Rightarrow> string \<Rightarrow> bool" where
  \<comment> \<open>\<open>\b\<close>: exactly one of the two neighbouring positions holds a word character\<close>
  "at_boundary prev s =
     ((case prev of None \<Rightarrow> False | Some p \<Rightarrow> word_char p)
      \<noteq> (case s of [] \<Rightarrow> False | x # _ \<Rightarrow> word_char x))"

text \<open>
  \<open>rx_match ops prev s pos g\<close> matches \<open>ops\<close> against the rest \<open>s\<close> of the text, which
  starts at index \<open>pos\<close> and is preceded by \<open>prev\<close>; \<open>g\<close> holds the marks of the group.
  The result is the end index and the marks.
\<close>

fun rx_match :: "rx_op list \<Rightarrow> char option \<Rightarrow> string \<Rightarrow> nat \<Rightarrow> marks \<Rightarrow> (nat \<times> marks) option" where
  "rx_match [] prev s pos g = Some (pos, g)"
| "rx_match (One c # ops) prev [] pos g = None"
| "rx_match (One c # ops) prev (x # xs) pos g =
     (if cset_match c x then rx_match ops (Some x) xs (Suc pos) g else None)"
| "rx_match (Rep1 c # ops) prev [] pos g = None"
| "rx_match (Rep1 c # ops) prev (x # xs) pos g =
     (if cset_match c x
      then (case rx_match (Rep1 c # ops) (Some x) xs (Suc pos) g of
              Some r \<Rightarrow> Some r
            | None \<Rightarrow> rx_match ops (Some x) xs (Suc pos) g)
      else None)"
| "rx_match (WordB # ops) prev s pos g =
     (if at_boundary prev s then rx_match ops prev s pos g else None)"
| "rx_match (GroupOpen # ops) prev s pos g = rx_match ops prev s pos (Some pos, snd g)"
| "rx_match (GroupClose # ops) prev s pos g = rx_match ops prev s pos (fst g, Some pos)"

record re_match =
  m_start :: nat
  m_end :: nat
  m_marks :: marks

fun search_from :: "rx_op list \<Rightarrow> char option \<Rightarrow> string \<Rightarrow> nat \<Rightarrow> re_match option" where
  "search_from ops prev [] pos =
     (case rx_match ops prev [] pos (None, None) of
        Some (e, g) \<Rightarrow> Some \<lparr>m_start = pos, m_end = e, m_marks = g\<rparr>
      | None \<Rightarrow> None)"
| "search_from ops prev (x # xs) pos =
     (case rx_match ops prev (x # xs) pos (None, None) of
        Some (e, g) \<Rightarrow> Some \<lparr>m_start = pos, m_end = e, m_marks = g\<rparr>
      | None \<Rightarrow> search_from ops (Some x) xs (Suc pos))"

definition re_search :: "rx_op list \<Rightarrow> string \<Rightarrow> re_match option" where
  "re_search ops text = search_from ops None text 0"

definition slice :: "string \<Rightarrow> nat \<Rightarrow> nat \<Rightarrow> string" where
  \<comment> \<open>\<open>text[a:b]\<close> for \<open>0 \<le> a\<close>, \<open>0 \<le> b\<close>\<close>
  "slice text a b = take (b - a) (drop a text)"

fun match_group :: "string \<Rightarrow> re_match \<Rightarrow> nat \<Rightarrow> string" where
  \<comment> \<open>\<open>match.group(i)\<close> for the whole match and for the one group of a pattern; a group
      that took no part gives \<open>None\<close>, which the caller tests like the empty string\<close>
  "match_group text m 0 = slice text (m_start m) (m_end m)"
| "match_group text m (Suc i) =
     (case m_marks m of
        (Some a, Some b) \<Rightarrow> slice text a b
      | _ \<Rightarrow> [])"

declare match_group.simps [simp del]

definition has_groups :: "rx_op list \<Rightarrow> bool" where
  \<comment> \<open>truth of \<open>match.groups()\<close>: the pattern has a group\<close>
  "has_groups ops = (GroupOpen \<in> set ops)"

definition lits :: "string \<Rightarrow> rx_op list" where
  "lits s = map (\<lambda>c. One (Lit c)) s"

definition name_group :: "rx_op list" where
  \<comment> \<open>\<open>([A-Z][a-z]+)\<close>\<close>
  "name_group = [GroupOpen, One (Range CHR ''A'' CHR ''Z''), Rep1 (Range CHR ''a'' CHR ''z''), GroupClose]"

definition here_pattern :: "rx_op list" where
  \<comment> \<open>\<open>([A-Z][a-z]+)\s+here\b\<close>\<close>
  "here_pattern = name_group @ [Rep1 Space] @ lits ''here'' @ [WordB]"

definition my_name_is_pattern :: "rx_op list" where
  \<comment> \<open>\<open>my\s+name\s+is\s+([A-Z][a-z]+)\<close>\<close>
  "my_name_is_pattern =
     lits ''my'' @ [Rep1 Space] @ lits ''name'' @ [Rep1 Space] @ lits ''is'' @ [Rep1 Space] @ name_group"

definition i_am_pattern :: "rx_op list" where
  \<comment> \<open>\<open>i\s+am\s+([A-Z][a-z]+)\<close>\<close>
  "i_am_pattern = lits ''i'' @ [Rep1 Space] @ lits ''am'' @ [Rep1 Space] @ name_group"

definition im_pattern :: "rx_op list" where
  \<comment> \<open>\<open>i'm\s+([A-Z][a-z]+)\<close>\<close>
  "im_pattern = lits [CHR ''i'', CHR 0x27, CHR ''m''] @ [Rep1 Space] @ name_group"

definition this_is_pattern :: "rx_op list" where
  \<comment> \<open>\<open>this\s+is\s+([A-Z][a-z]+)\<close>\<close>
  "this_is_pattern = lits ''this'' @ [Rep1 Space] @ lits ''is'' @ [Rep1 Space] @ name_group"

definition priority_patterns :: "(rx_op list \<times> nat) list" where
  "priority_patterns =
     [(here_pattern, 0), (my_name_is_pattern, 1), (i_am_pattern, 1), (im_pattern, 1),
      (this_is_pattern, 1)]"

section \<open>The name extractor\<close>

definition skip_words :: "string list" where
  "skip_words =
    [''The'', ''This'', ''That'', ''There'', ''Here'', ''Hello'', ''Hi'', ''Hey'', ''My'', ''my'', ''I'', ''We'', ''You'',
     ''Everybody'', ''Everyone'', ''Anyone'', ''Someone'', ''Something'', ''Somewhere'', ''Today'',
     ''Tomorrow'', ''Yesterday'', ''Now'', ''Then'', ''When'', ''Where'', ''What'', ''Who'', ''Why'', ''How'',
     ''Video'', ''Intro'', ''Introduction'', ''About'', ''Me'', ''Just'', ''just'', ''And'', ''Or'', ''But'',
     ''Senior'', ''Junior'', ''Sophomore'', ''Freshman'', ''Undergrad'', ''Grad'', ''Team'', ''Year'',
     ''Been'', ''Have'', ''Has'', ''Had'', ''Was'', ''Were'', ''Is'', ''Are'', ''Am'', ''Be'', ''Being'',
     ''In'', ''On'', ''At'', ''To'', ''For'', ''From'', ''With'', ''By'', ''Of'', ''As'', ''An'', ''A'',
     ''First'', ''Last'', ''Next'', ''Previous'', ''Current'', ''New'', ''Old'', ''Good'', ''Bad'',
     ''Little'', ''Big'', ''Many'', ''Much'', ''Some'', ''Any'', ''All'', ''Each'', ''Every'', ''Both'',
     ''College'', ''University'', ''School'', ''Semester'', ''Class'', ''Course'', ''Shop'', ''Two'',
     ''Raised'', ''Born'', ''From'', ''Living'', ''Working'', ''Doing'', ''Going'', ''Getting'']"

definition skip_words_lower :: "string list" where
  \<comment> \<open>the set \<open>{w.lower() for w in skip_words}\<close>, kept as the list of its members\<close>
  "skip_words_lower = map lower skip_words"

definition is_skip_word :: "string \<Rightarrow> bool" where
  \<comment> \<open>\<open>w.lower() in skip_words_lower\<close>\<close>
  "is_skip_word w = (lower w \<in> set skip_words_lower)"

definition candidate :: "rx_op list \<times> nat \<Rightarrow> string \<Rightarrow> py_error + string option" where
  \<comment> \<open>the body of the loop over \<open>priority_patterns\<close>: \<open>Inr (Some name)\<close> is its
      \<open>return name\<close>, \<open>Inr None\<close> falls through to the next pattern\<close>
  "candidate p intro_text =
     (case re_search (fst p) intro_text of
        None \<Rightarrow> Inr None
      | Some m \<Rightarrow>
          (let name_part = (if has_groups (fst p) then match_group intro_text m (snd p)
                            else match_group intro_text m 0)
           in if name_part = [] then Inr None
              else (case first_token name_part of
                      Inl e \<Rightarrow> Inl e
                    | Inr tok \<Rightarrow>
                        (let name = strip_nonword tok
                         in if name \<noteq> [] \<and> length name > 2 \<and> \<not> is_skip_word name
                            then (if isupper (hd name) then Inr (Some name) else Inr None)
                            else Inr None))))"

definition qualifies :: "string \<Rightarrow> bool" where
  \<comment> \<open>the test the fallback applies to \<open>clean_word\<close> and to \<open>next_word\<close>\<close>
  "qualifies w = (w \<noteq> [] \<and> isupper (hd w) \<and> length w > 2 \<and> \<not> is_skip_word w)"

fun fallback_scan :: "nat \<Rightarrow> string list \<Rightarrow> string option" where
  \<comment> \<open>the loop over \<open>words[:15]\<close>: the counter is what is left of the 15, the list is
      \<open>words[i:]\<close>, so that \<open>words[i + 1]\<close> is read from the whole of \<open>words\<close>\<close>
  "fallback_scan 0 ws = None"
| "fallback_scan (Suc n) [] = None"
| "fallback_scan (Suc n) (word # rest) =
     (let clean_word = strip_nonword word
      in if qualifies clean_word
            \<and> (case rest of [] \<Rightarrow> False | nxt # _ \<Rightarrow> qualifies (strip_nonword nxt))
         then Some clean_word
         else fallback_scan n rest)"

definition pair_at :: "string list \<Rightarrow> nat \<Rightarrow> bool" where
  \<comment> \<open>the tests of the loop body at index \<open>i\<close>: \<open>words[i]\<close> passes, \<open>i + 1 < len(words)\<close>,
      and \<open>words[i + 1]\<close> passes\<close>
  "pair_at words i =
     (Suc i < length words \<and> qualifies (strip_nonword (words ! i))
      \<and> qualifies (strip_nonword (words ! Suc i)))"

fun find_from :: "(rx_op list \<times> nat) list \<Rightarrow> string \<Rightarrow> py_error + string option" where
  \<comment> \<open>\<open>find_first_name\<close> from the point where the patterns of the list are still to try\<close>
  "find_from [] intro_text = Inr (fallback_scan 15 (split (take 200 intro_text)))"
| "find_from (p # ps) intro_text =
     (case candidate p intro_text of
        Inl e \<Rightarrow> Inl e
      | Inr (Some name) \<Rightarrow> Inr (Some name)
      | Inr None \<Rightarrow> find_from ps intro_text)"

definition find_first_name :: "string \<Rightarrow> py_error + string option" where
  "find_first_name text =
     (let intro_text = (if length text > 500 then take 500 text else text)
      in find_from priority_patterns intro_text)"

section \<open>The transcription adapter\<close>

text \<open>
  \<open>transcribe_audio\<close> works on the process environment and the temporary directories.
  What the libraries and the operating system answer is not code of the program: each
  call that can raise is given by its outcome in a \<open>run\<close>, and the function is modelled
  for every run.
\<close>

datatype exn =
    ImportError   \<comment> \<open>\<open>ImportError\<close> and its subclasses\<close>
  | OtherError    \<comment> \<open>any other exception derived from \<open>Exception\<close>\<close>
  | Interrupt     \<comment> \<open>\<open>KeyboardInterrupt\<close>, \<open>SystemExit\<close>: not derived from \<open>Exception\<close>\<close>

definition is_exception :: "exn \<Rightarrow> bool" where
  \<comment> \<open>what \<open>except Exception\<close> catches\<close>
  "is_exception e = (e \<noteq> Interrupt)"

datatype 'a outcome = Returns 'a | Raises exn

record os_state =
  temp_dirs :: "string set"        \<comment> \<open>the directories made by \<open>tempfile.mkdtemp\<close> that exist\<close>
  path_env :: "string option"      \<comment> \<open>\<open>os.environ\<close> at \<open>'PATH'\<close>\<close>

record run =
  r_imageio :: "string outcome"          \<comment> \<open>\<open>import imageio_ffmpeg\<close> and \<open>get_ffmpeg_exe()\<close>\<close>
  r_mkdtemp :: "string outcome"          \<comment> \<open>\<open>tempfile.mkdtemp()\<close>: the new directory\<close>
  r_link :: "unit outcome"               \<comment> \<open>\<open>shutil.copy\<close> or \<open>os.symlink\<close>\<close>
  r_pathsep :: string                    \<comment> \<open>\<open>os.pathsep\<close>\<close>
  r_import_whisper :: "unit outcome"     \<comment> \<open>\<open>import whisper\<close>\<close>
  r_load_model :: "unit outcome"         \<comment> \<open>\<open>model_dir.mkdir\<close> and \<open>whisper.load_model\<close>\<close>
  r_transcribe :: "string outcome"       \<comment> \<open>\<open>model.transcribe(audio_path)["text"]\<close>\<close>
  r_pip_install :: "unit outcome"        \<comment> \<open>\<open>pip install openai-whisper\<close>, \<open>check=True\<close>\<close>
  r_import_whisper2 :: "unit outcome"    \<comment> \<open>the second \<open>import whisper\<close>\<close>
  r_load_model2 :: "unit outcome"
  r_transcribe2 :: "string outcome"

definition cleanup :: "string option \<Rightarrow> os_state \<Rightarrow> os_state" where
  \<comment> \<open>\<open>if temp_ffmpeg_dir and os.path.exists(temp_ffmpeg_dir): shutil.rmtree(temp_ffmpeg_dir)\<close>\<close>
  "cleanup temp_ffmpeg_dir s =
     (case temp_ffmpeg_dir of
        None \<Rightarrow> s
      | Some d \<Rightarrow> if d \<noteq> [] \<and> d \<in> temp_dirs s then s\<lparr>temp_dirs := temp_dirs s - {d}\<rparr> else s)"

definition setup_ffmpeg :: "run \<Rightarrow> os_state \<Rightarrow> (exn + string option) \<times> os_state" where
  \<comment> \<open>the first \<open>try\<close> block: the value of \<open>temp_ffmpeg_dir\<close> after it, and the state;
      an exception that \<open>except Exception\<close> catches ends the block with a warning, any
      other one leaves the function\<close>
  "setup_ffmpeg r s =
     (case r_imageio r of
        Raises e \<Rightarrow> (if is_exception e then Inr None else Inl e, s)
      | Returns ffmpeg_path \<Rightarrow>
          (case r_mkdtemp r of
             Raises e \<Rightarrow> (if is_exception e then Inr None else Inl e, s)
           | Returns d \<Rightarrow>
               (let s1 = s\<lparr>temp_dirs := insert d (temp_dirs s)\<rparr>
                in case r_link r of
                     Raises e \<Rightarrow> (if is_exception e then Inr (Some d) else Inl e, s1)
                   | Returns u \<Rightarrow>
                       (Inr (Some d),
                        s1\<lparr>path_env :=
                             Some (d @ r_pathsep r @ (case path_env s of None \<Rightarrow> [] | Some p \<Rightarrow> p))\<rparr>))))"

definition whisper_steps ::
  "unit outcome \<Rightarrow> unit outcome \<Rightarrow> string outcome \<Rightarrow> string outcome" where
  \<comment> \<open>import, load and transcribe in sequence: the first exception ends the sequence\<close>
  "whisper_steps imp ld tr =
     (case imp of
        Raises e \<Rightarrow> Raises e
      | Returns u \<Rightarrow> (case ld of Raises e \<Rightarrow> Raises e | Returns v \<Rightarrow> tr))"

definition transcribe_audio :: "run \<Rightarrow> os_state \<Rightarrow> (exn + string) \<times> os_state" where
  "transcribe_audio r s =
     (case setup_ffmpeg r s of
        (Inl e, s1) \<Rightarrow> (Inl e, s1)
      | (Inr temp_ffmpeg_dir, s1) \<Rightarrow>
          (case whisper_steps (r_import_whisper r) (r_load_model r) (r_transcribe r) of
             Returns text \<Rightarrow> (Inr text, cleanup temp_ffmpeg_dir s1)
           | Raises ImportError \<Rightarrow>
               \<comment> \<open>the handler of \<open>ImportError\<close>: an exception raised in it leaves the function
                   at once, the handler of \<open>Exception\<close> beside it does not run\<close>
               (case r_pip_install r of
                  Raises e \<Rightarrow> (Inl e, s1)
                | Returns u \<Rightarrow>
                    (case whisper_steps (r_import_whisper2 r) (r_load_model2 r) (r_transcribe2 r) of
                       Raises e \<Rightarrow> (Inl e, s1)
                     | Returns text \<Rightarrow> (Inr text, cleanup temp_ffmpeg_dir s1)))
           | Raises OtherError \<Rightarrow>
               \<comment> \<open>the handler of \<open>Exception\<close>: clean up and raise again\<close>
               (Inl OtherError, cleanup temp_ffmpeg_dir s1)
           | Raises Interrupt \<Rightarrow>
               \<comment> \<open>no handler catches it\<close>
               (Inl Interrupt, s1)))"

section \<open>Processing one video, and the batch\<close>

type_synonym fs = "string \<rightharpoonup> string"
  \<comment> \<open>the files of the directory of the videos: name to content\<close>

datatype extraction =
    Extracted string            \<comment> \<open>ffmpeg wrote the audio to the output path\<close>
  | ExtractFailed "string option"  \<comment> \<open>ffmpeg failed; what it wrote to the output path, if anything\<close>
  | ExtractInterrupted "string option"
      \<comment> \<open>the call was left by an exception that is not an \<open>Exception\<close>; what was written\<close>

record video =
  v_stem :: string                 \<comment> \<open>\<open>video_path.stem\<close>\<close>
  v_check_ffmpeg :: bool           \<comment> \<open>the answer of \<open>check_ffmpeg()\<close>\<close>
  v_ffmpeg :: extraction           \<comment> \<open>outcome of \<open>extract_audio_ffmpeg\<close>\<close>
  v_imageio_ffmpeg :: extraction   \<comment> \<open>outcome of \<open>extract_audio_imageio_ffmpeg\<close>\<close>
  v_run :: run                     \<comment> \<open>the run of \<open>transcribe_audio\<close>\<close>

record world =
  files :: fs
  os :: os_state

definition strip :: "string \<Rightarrow> string" where
  \<comment> \<open>\<open>str.strip()\<close>\<close>
  "strip s = rev (dropWhile isspace (rev (dropWhile isspace s)))"

definition is_sep :: "char \<Rightarrow> bool" where
  \<comment> \<open>the class \<open>[-\s]\<close>\<close>
  "is_sep c = (c = CHR ''-'' \<or> isspace c)"

function collapse_seps :: "string \<Rightarrow> string" where
  \<comment> \<open>\<open>re.sub(r'[-\s]+', '-', s)\<close>\<close>
  "collapse_seps [] = []"
| "collapse_seps (c # cs) =
     (if is_sep c then CHR ''-'' # collapse_seps (dropWhile is_sep cs)
      else c # collapse_seps cs)"
  by pat_completeness auto
termination
proof (relation "measure length")
  show "wf (measure length)" by simp
next
  fix c :: char and cs :: string
  have "length (dropWhile is_sep cs) \<le> length cs"
    by (rule length_dropWhile_le)
  then show "(dropWhile is_sep cs, c # cs) \<in> measure length"
    by simp
next
  fix c :: char and cs :: string
  show "(cs, c # cs) \<in> measure length"
    by simp
qed

definition sanitize :: "string \<Rightarrow> string" where
  \<comment> \<open>the two \<open>re.sub\<close> calls that make \<open>safe_name\<close>\<close>
  "sanitize name =
     collapse_seps (strip (filter (\<lambda>c. word_char c \<or> isspace c \<or> c = CHR ''-'') name))"

definition temp_name :: "string \<Rightarrow> string" where
  "temp_name stem = ''temp_audio_'' @ stem @ ''.mp3''"

definition target_name :: "string option \<Rightarrow> py_error + string" where
  \<comment> \<open>the name of \<open>final_mp3\<close> for the value \<open>find_first_name\<close> returned; \<open>None\<close> and
      the empty string are false in \<open>if name\<close>\<close>
  "target_name name =
     (case name of
        None \<Rightarrow> Inr ''audio.mp3''
      | Some n \<Rightarrow>
          if n = [] then Inr ''audio.mp3''
          else (case first_token n of
                  Inl e \<Rightarrow> Inl e
                | Inr n1 \<Rightarrow> Inr (sanitize n1 @ ''.mp3'')))"

definition finalize :: "fs \<Rightarrow> string \<Rightarrow> string \<Rightarrow> (py_error + bool) \<times> fs" where
  \<comment> \<open>the end of both branches: skip if \<open>final_mp3\<close> exists, else rename\<close>
  "finalize f temp_mp3 final_mp3 =
     (if f final_mp3 \<noteq> None then (Inr True, f(temp_mp3 := None))
      else (case f temp_mp3 of
              None \<Rightarrow> (Inl FileNotFoundError, f)
            | Some audio \<Rightarrow> (Inr True, f(temp_mp3 := None, final_mp3 \<mapsto> audio))))"

definition process_video :: "video \<Rightarrow> world \<Rightarrow> (py_error + bool) \<times> world" where
  "process_video v w =
     (let temp_mp3 = temp_name (v_stem v)
      in case (if v_check_ffmpeg v then v_ffmpeg v else v_imageio_ffmpeg v) of
           ExtractFailed partial \<Rightarrow>
             (Inr False,
              w\<lparr>files := (case partial of None \<Rightarrow> files w | Some c \<Rightarrow> (files w)(temp_mp3 \<mapsto> c))
                          (temp_mp3 := None)\<rparr>)
         | ExtractInterrupted partial \<Rightarrow>
             (Inl Interrupted,
              w\<lparr>files := (case partial of None \<Rightarrow> files w | Some c \<Rightarrow> (files w)(temp_mp3 \<mapsto> c))\<rparr>)
         | Extracted audio \<Rightarrow>
             (let f1 = (files w)(temp_mp3 \<mapsto> audio);
                  (t, os1) = transcribe_audio (v_run v) (os w)
              in case t of
                   Inl e \<Rightarrow>
                     if is_exception e then (Inr False, \<lparr>files = f1(temp_mp3 := None), os = os1\<rparr>)
                     else (Inl Interrupted, \<lparr>files = f1, os = os1\<rparr>)
                 | Inr transcription \<Rightarrow>
                     (case find_first_name transcription of
                        Inl e \<Rightarrow> (Inl e, \<lparr>files = f1, os = os1\<rparr>)
                      | Inr name \<Rightarrow>
                          (case target_name name of
                             Inl e \<Rightarrow> (Inl e, \<lparr>files = f1, os = os1\<rparr>)
                           | Inr final_mp3 \<Rightarrow>
                               (let (res, f2) = finalize f1 temp_mp3 final_mp3
                                in (res, \<lparr>files = f2, os = os1\<rparr>))))))"

fun main_loop :: "video list \<Rightarrow> world \<Rightarrow> nat \<times> nat \<Rightarrow> (nat \<times> nat) \<times> world" where
  \<comment> \<open>the loop of \<open>main\<close> over the sorted videos, on the counters
      \<open>(successful, failed)\<close>; an exception out of \<open>process_video\<close> that
      \<open>except Exception\<close> catches counts as failed, any other one leaves \<open>main\<close>: the
      loop ends there, with the counters as they are\<close>
  "main_loop [] w c = (c, w)"
| "main_loop (v # vs) w (successful, failed) =
     (case process_video v w of
        (Inr True, w1) \<Rightarrow> main_loop vs w1 (successful + 1, failed)
      | (Inr False, w1) \<Rightarrow> main_loop vs w1 (successful, failed + 1)
      | (Inl e, w1) \<Rightarrow>
          if e = Interrupted then ((successful, failed), w1)
          else main_loop vs w1 (successful, failed + 1))"

section \<open>Facts about the string operations\<close>

lemma word_char_not_space: "word_char c \<Longrightarrow> \<not> isspace c"
  by (auto simp: word_char_def isalnum_def isspace_def in_range_def)

lemma word_char_not_sep: "word_char c \<Longrightarrow> \<not> is_sep c"
  by (auto simp: is_sep_def word_char_not_space) (simp add: word_char_def isalnum_def in_range_def)

lemma split_Nil: "split [] = []"
  by (simp add: split.simps)

lemma split_no_space:
  assumes "s \<noteq> []" and "\<forall>c\<in>set s. \<not> isspace c"
  shows "split s = [s]"
proof -
  obtain c cs where s: "s = c # cs"
    using assms(1) by (cases s) auto
  have d: "dropWhile isspace s = c # cs"
    using assms(2) s by simp
  have t: "takeWhile (\<lambda>x. \<not> isspace x) cs = cs"
    using assms(2) s by simp
  have e: "dropWhile (\<lambda>x. \<not> isspace x) cs = []"
    using assms(2) s by simp
  have "split s = (c # takeWhile (\<lambda>x. \<not> isspace x) cs) # split (dropWhile (\<lambda>x. \<not> isspace x) cs)"
    by (subst split.simps) (simp add: d)
  then show ?thesis
    by (simp add: t e s split_Nil)
qed

lemma first_token_no_space:
  "s \<noteq> [] \<Longrightarrow> \<forall>c\<in>set s. \<not> isspace c \<Longrightarrow> first_token s = Inr s"
  by (simp add: first_token_def split_no_space)

lemma strip_no_space:
  assumes "\<forall>c\<in>set s. \<not> isspace c"
  shows "strip s = s"
proof -
  have "dropWhile isspace s = s"
    using assms by (cases s) auto
  moreover have "dropWhile isspace (rev s) = rev s"
    using assms by (cases "rev s") (auto simp: dropWhile_eq_self_iff)
  ultimately show ?thesis
    by (simp add: strip_def)
qed

lemma collapse_seps_no_sep: "\<forall>c\<in>set s. \<not> is_sep c \<Longrightarrow> collapse_seps s = s"
  by (induction s) auto

lemma sanitize_word:
  assumes "\<forall>c\<in>set s. word_char c"
  shows "sanitize s = s"
proof -
  have f: "filter (\<lambda>c. word_char c \<or> isspace c \<or> c = CHR ''-'') s = s"
    using assms by (simp add: filter_id_conv)
  have "strip s = s"
    using assms by (simp add: strip_no_space word_char_not_space)
  moreover have "collapse_seps s = s"
    using assms by (simp add: collapse_seps_no_sep word_char_not_sep)
  ultimately show ?thesis
    by (simp add: sanitize_def f)
qed

section \<open>Evaluation of the extractor on a given text\<close>

lemmas char_eval = word_char_def isalnum_def isalpha_def isupper_def isspace_def in_range_def
  lower_def lower_char_def upper_char_def char_of_eq_iff

lemma skip_words_lower_eval:
  "skip_words_lower =
    [''the'', ''this'', ''that'', ''there'', ''here'', ''hello'', ''hi'', ''hey'', ''my'',
     ''my'', ''i'', ''we'', ''you'', ''everybody'', ''everyone'', ''anyone'', ''someone'',
     ''something'', ''somewhere'', ''today'', ''tomorrow'', ''yesterday'', ''now'', ''then'',
     ''when'', ''where'', ''what'', ''who'', ''why'', ''how'', ''video'', ''intro'',
     ''introduction'', ''about'', ''me'', ''just'', ''just'', ''and'', ''or'', ''but'',
     ''senior'', ''junior'', ''sophomore'', ''freshman'', ''undergrad'', ''grad'', ''team'',
     ''year'', ''been'', ''have'', ''has'', ''had'', ''was'', ''were'', ''is'', ''are'',
     ''am'', ''be'', ''being'', ''in'', ''on'', ''at'', ''to'', ''for'', ''from'', ''with'',
     ''by'', ''of'', ''as'', ''an'', ''a'', ''first'', ''last'', ''next'', ''previous'',
     ''current'', ''new'', ''old'', ''good'', ''bad'', ''little'', ''big'', ''many'', ''much'',
     ''some'', ''any'', ''all'', ''each'', ''every'', ''both'', ''college'', ''university'',
     ''school'', ''semester'', ''class'', ''course'', ''shop'', ''two'', ''raised'', ''born'',
     ''from'', ''living'', ''working'', ''doing'', ''going'', ''getting'']"
  by (simp add: skip_words_lower_def skip_words_def char_eval)

lemma match_group_0: "match_group text m 0 = slice text (m_start m) (m_end m)"
  by (simp add: match_group.simps)

lemma match_group_1:
  "match_group text m (Suc 0) = (case m_marks m of (Some a, Some b) \<Rightarrow> slice text a b | _ \<Rightarrow> [])"
  by (simp add: match_group.simps)

lemmas rx_eval = match_group_0 match_group_1 priority_patterns_def here_pattern_def my_name_is_pattern_def i_am_pattern_def
  im_pattern_def this_is_pattern_def lits_def name_group_def re_search_def has_groups_def
  slice_def at_boundary_def

lemma fallback_scan_numeral_Nil: "fallback_scan (numeral k) [] = None"
  by (simp add: numeral_eq_Suc)

lemma fallback_scan_numeral_Cons:
  "fallback_scan (numeral k) (word # rest) =
     (if qualifies (strip_nonword word)
         \<and> (case rest of [] \<Rightarrow> False | nxt # _ \<Rightarrow> qualifies (strip_nonword nxt))
      then Some (strip_nonword word)
      else fallback_scan (pred_numeral k) rest)"
  by (simp add: numeral_eq_Suc Let_def)

lemma fallback_scan_1:
  "fallback_scan 1 ws =
     (case ws of
        [] \<Rightarrow> None
      | word # rest \<Rightarrow>
          if qualifies (strip_nonword word)
             \<and> (case rest of [] \<Rightarrow> False | nxt # _ \<Rightarrow> qualifies (strip_nonword nxt))
          then Some (strip_nonword word)
          else None)"
  by (cases ws) (simp_all add: Let_def)

lemmas name_eval = find_first_name_def candidate_def first_token_def split.simps
  strip_nonword_def is_skip_word_def skip_words_lower_eval qualifies_def Let_def
  fallback_scan_numeral_Nil fallback_scan_numeral_Cons fallback_scan_1

section \<open>What the extractor returns\<close>

lemma candidate_valid:
  assumes "candidate p t = Inr (Some n)"
  shows "qualifies n \<and> (\<forall>c\<in>set n. word_char c)"
  using assms
  by (auto simp: candidate_def qualifies_def strip_nonword_def Let_def
           split: option.splits sum.splits if_splits)

lemma fallback_scan_valid:
  "fallback_scan k ws = Some n \<Longrightarrow> qualifies n \<and> (\<forall>c\<in>set n. word_char c)"
proof (induction k ws rule: fallback_scan.induct)
  case (3 k word rest)
  then show ?case
    by (auto simp: Let_def strip_nonword_def split: if_splits)
qed simp_all

lemma find_from_valid:
  "find_from ps t = Inr (Some n) \<Longrightarrow> qualifies n \<and> (\<forall>c\<in>set n. word_char c)"
proof (induction ps)
  case Nil
  then show ?case
    using fallback_scan_valid by simp
next
  case (Cons p ps)
  show ?case
  proof (cases "candidate p t")
    case (Inl e)
    with Cons.prems show ?thesis by simp
  next
    case (Inr r)
    show ?thesis
    proof (cases r)
      case None
      with Inr Cons show ?thesis by simp
    next
      case (Some m)
      with Inr Cons.prems have "candidate p t = Inr (Some n)" by simp
      then show ?thesis by (rule candidate_valid)
    qed
  qed
qed

lemma find_first_name_valid:
  "find_first_name text = Inr (Some n) \<Longrightarrow> qualifies n \<and> (\<forall>c\<in>set n. word_char c)"
  unfolding find_first_name_def Let_def by (rule find_from_valid)

lemma target_name_valid:
  assumes "qualifies n" and "\<forall>c\<in>set n. word_char c"
  shows "first_token n = Inr n \<and> sanitize n = n \<and> target_name (Some n) = Inr (n @ ''.mp3'')"
proof -
  from assms(1) have ne: "n \<noteq> []"
    by (simp add: qualifies_def)
  from assms(2) have "\<forall>c\<in>set n. \<not> isspace c"
    using word_char_not_space by blast
  with ne have ft: "first_token n = Inr n"
    by (rule first_token_no_space)
  from assms(2) have sn: "sanitize n = n"
    by (rule sanitize_word)
  from ne ft sn show ?thesis
    by (simp add: target_name_def)
qed

lemma find_first_name_take: "find_first_name text = find_first_name (take 500 text)"
  by (simp add: find_first_name_def)

section \<open>The claims about the name extractor\<close>

text \<open>
  C9. \<open>find_first_name\<close> is a function of the transcript alone, and of its first 500
  characters only: two transcripts with the same first 500 characters give the same result.
\<close>

theorem find_first_name_window:
  "take 500 t1 = take 500 t2 \<Longrightarrow> find_first_name t1 = find_first_name t2"
  by (metis find_first_name_take)

theorem find_first_name_window_witness:
  "take 500 (replicate 500 CHR ''a'' @ ''Bob here'')
     = take 500 (replicate 500 CHR ''a'' @ ''my name is Al'')
   \<and> find_first_name (replicate 500 CHR ''a'' @ ''Bob here'')
     = find_first_name (replicate 500 CHR ''a'' @ ''my name is Al'')"
  using find_first_name_window
    [of "replicate 500 CHR ''a'' @ ''Bob here''" "replicate 500 CHR ''a'' @ ''my name is Al''"]
  by simp

text \<open>
  C10. The sanitization of \<open>process_video\<close> leaves every name that \<open>find_first_name\<close>
  returns as it is: the target file is the name followed by \<open>.mp3\<close>.
\<close>

theorem sanitize_returned_name:
  assumes "find_first_name text = Inr (Some n)"
  shows "first_token n = Inr n \<and> sanitize n = n \<and> target_name (Some n) = Inr (n @ ''.mp3'')"
  using find_first_name_valid [OF assms] by (simp add: target_name_valid)

theorem sanitize_returned_name_witness:
  "find_first_name ''I am Maria Lopez'' = Inr (Some ''Maria'')
   \<and> first_token ''Maria'' = Inr ''Maria'' \<and> sanitize ''Maria'' = ''Maria''
   \<and> target_name (Some ''Maria'') = Inr ''Maria.mp3''"
proof -
  have h: "find_first_name ''I am Maria Lopez'' = Inr (Some ''Maria'')"
    by (simp add: char_eval rx_eval name_eval)
  from h sanitize_returned_name [OF h] show ?thesis
    by simp
qed

text \<open>
  C4, as the code has it. Every name that \<open>find_first_name\<close> returns is a non-empty token
  of word characters (letters, digits or underscore) that starts with an uppercase
  letter, is longer than 2 and whose lowercase form is not a stopword. The result is an
  optional value, so at most one name is produced per transcript.
\<close>

theorem returned_name_valid:
  assumes "find_first_name text = Inr (Some n)"
  shows "n \<noteq> [] \<and> (\<forall>c\<in>set n. word_char c) \<and> isupper (hd n) \<and> length n > 2
         \<and> lower n \<notin> set skip_words_lower"
  using find_first_name_valid [OF assms]
  by (simp add: qualifies_def is_skip_word_def)

theorem returned_name_valid_witness:
  "find_first_name ''this is Omar'' = Inr (Some ''Omar'')
   \<and> ''Omar'' \<noteq> [] \<and> list_all word_char ''Omar'' \<and> isupper (hd ''Omar'')
   \<and> length ''Omar'' > 2 \<and> lower ''Omar'' \<notin> set skip_words_lower"
proof -
  have h: "find_first_name ''this is Omar'' = Inr (Some ''Omar'')"
    by (simp add: char_eval rx_eval name_eval)
  from h returned_name_valid [OF h] show ?thesis
    by (simp add: list_all_iff)
qed

text \<open>
  C4, as the claim has it, fails: the fallback scan keeps the digits of a word, and
  returns a name that is not made of letters.
\<close>

theorem returned_name_with_digits:
  "find_first_name ''R2D2 Unit'' = Inr (Some ''R2D2'') \<and> \<not> isalpha (''R2D2'' ! 1)"
  by (simp add: char_eval rx_eval name_eval)

section \<open>The claim about the transcription adapter\<close>

lemma setup_ffmpeg_dirs:
  assumes "setup_ffmpeg r s = (Inr td, s1)"
  shows "(td = None \<and> temp_dirs s1 = temp_dirs s)
         \<or> (\<exists>d. td = Some d \<and> r_mkdtemp r = Returns d \<and> temp_dirs s1 = insert d (temp_dirs s))"
  using assms
  by (auto simp: setup_ffmpeg_def Let_def split: outcome.splits if_splits)

lemma setup_ffmpeg_Inl: "setup_ffmpeg r s = (Inl e, s1) \<Longrightarrow> e = Interrupt"
  by (auto simp: setup_ffmpeg_def Let_def is_exception_def split: outcome.splits if_splits)

lemma cleanup_dirs:
  assumes "setup_ffmpeg r s = (Inr td, s1)"
      and "\<forall>d. r_mkdtemp r = Returns d \<longrightarrow> d \<noteq> [] \<and> d \<notin> temp_dirs s"
  shows "temp_dirs (cleanup td s1) = temp_dirs s"
  using setup_ffmpeg_dirs [OF assms(1)] assms(2)
  by (auto simp: cleanup_def)

lemma cleanup_path: "path_env (cleanup td s1) = path_env s1"
  by (simp add: cleanup_def split: option.splits)

lemma transcribe_audio_path:
  "path_env (snd (transcribe_audio r s)) = path_env (snd (setup_ffmpeg r s))"
  by (simp add: transcribe_audio_def cleanup_path
           split: prod.splits sum.splits outcome.splits exn.splits)

text \<open>
  C8, as the code has it. When \<open>transcribe_audio\<close> returns the text, at the first attempt
  or after installing whisper, and when it fails because the first attempt raised an
  exception that \<open>except Exception\<close> catches and that is not an \<open>ImportError\<close>, the
  temporary directory it made is removed: the directories are those from before the call.
  The value of \<open>PATH\<close> is the one the set-up left: the directory put in front of it stays
  there.
\<close>

theorem transcribe_audio_cleanup:
  assumes "transcribe_audio r s = (res, s')"
      and "\<forall>d. r_mkdtemp r = Returns d \<longrightarrow> d \<noteq> [] \<and> d \<notin> temp_dirs s"
      and "(\<exists>text. res = Inr text)
           \<or> (res = Inl OtherError
               \<and> whisper_steps (r_import_whisper r) (r_load_model r) (r_transcribe r)
                   = Raises OtherError)"
  shows "temp_dirs s' = temp_dirs s \<and> path_env s' = path_env (snd (setup_ffmpeg r s))"
proof -
  obtain x s1 where su: "setup_ffmpeg r s = (x, s1)"
    by (cases "setup_ffmpeg r s")
  from assms(1,3) su obtain td where td: "x = Inr td"
    by (cases x) (auto simp: transcribe_audio_def dest: setup_ffmpeg_Inl)
  have c: "temp_dirs (cleanup td s1) = temp_dirs s"
    using su td assms(2) by (intro cleanup_dirs) simp_all
  have "s' = cleanup td s1"
    using assms(1,3) su td
    by (auto simp: transcribe_audio_def split: outcome.splits exn.splits)
  with c have "temp_dirs s' = temp_dirs s"
    by simp
  moreover have "path_env s' = path_env (snd (setup_ffmpeg r s))"
    using transcribe_audio_path [of r s] assms(1) by simp
  ultimately show ?thesis
    by simp
qed

theorem transcribe_audio_cleanup_witness:
  "transcribe_audio
     \<lparr>r_imageio = Returns ''/opt/ffmpeg'', r_mkdtemp = Returns ''/tmp/tmpab'', r_link = Returns (),
      r_pathsep = '':'', r_import_whisper = Returns (), r_load_model = Raises OtherError,
      r_transcribe = Returns ''Hello'', r_pip_install = Returns (),
      r_import_whisper2 = Returns (), r_load_model2 = Returns (), r_transcribe2 = Returns ''Hello''\<rparr>
     \<lparr>temp_dirs = {''/tmp/old''}, path_env = Some ''/usr/bin''\<rparr>
   = (Inl OtherError, \<lparr>temp_dirs = {''/tmp/old''}, path_env = Some ''/tmp/tmpab:/usr/bin''\<rparr>)
   \<and> temp_dirs \<lparr>temp_dirs = {''/tmp/old''}, path_env = Some ''/tmp/tmpab:/usr/bin''\<rparr> = {''/tmp/old''}"
proof -
  let ?r = "\<lparr>r_imageio = Returns ''/opt/ffmpeg'', r_mkdtemp = Returns ''/tmp/tmpab'', r_link = Returns (),
      r_pathsep = '':'', r_import_whisper = Returns (), r_load_model = Raises OtherError,
      r_transcribe = Returns ''Hello'', r_pip_install = Returns (),
      r_import_whisper2 = Returns (), r_load_model2 = Returns (), r_transcribe2 = Returns ''Hello''\<rparr>"
  let ?s = "\<lparr>temp_dirs = {''/tmp/old''}, path_env = Some ''/usr/bin''\<rparr>"
  let ?s' = "\<lparr>temp_dirs = {''/tmp/old''}, path_env = Some ''/tmp/tmpab:/usr/bin''\<rparr>"
  have run: "transcribe_audio ?r ?s = (Inl OtherError, ?s')"
    by (simp add: transcribe_audio_def setup_ffmpeg_def whisper_steps_def cleanup_def Let_def
          is_exception_def)
  have fresh: "\<forall>d. r_mkdtemp ?r = Returns d \<longrightarrow> d \<noteq> [] \<and> d \<notin> temp_dirs ?s"
    by simp
  have fails: "(\<exists>text. (Inl OtherError :: exn + string) = Inr text)
      \<or> ((Inl OtherError :: exn + string) = Inl OtherError
          \<and> whisper_steps (r_import_whisper ?r) (r_load_model ?r) (r_transcribe ?r)
              = Raises OtherError)"
    by (simp add: whisper_steps_def)
  from transcribe_audio_cleanup [OF run fresh fails] run show ?thesis
    by simp
qed

text \<open>
  C8, as the claim has it, fails. On a run where every step succeeds, \<open>PATH\<close> still starts
  with the removed directory after the call; and on a run where \<open>import whisper\<close> fails,
  the installation succeeds and the model then fails to load, the directory remains.
\<close>

theorem transcribe_audio_leaves_path:
  "transcribe_audio
     \<lparr>r_imageio = Returns ''/opt/ffmpeg'', r_mkdtemp = Returns ''/tmp/tmpab'', r_link = Returns (),
      r_pathsep = '':'', r_import_whisper = Returns (), r_load_model = Returns (),
      r_transcribe = Returns ''Hello'', r_pip_install = Returns (),
      r_import_whisper2 = Returns (), r_load_model2 = Returns (), r_transcribe2 = Returns ''Hello''\<rparr>
     \<lparr>temp_dirs = {}, path_env = Some ''/usr/bin''\<rparr>
   = (Inr ''Hello'', \<lparr>temp_dirs = {}, path_env = Some ''/tmp/tmpab:/usr/bin''\<rparr>)
   \<and> transcribe_audio
     \<lparr>r_imageio = Returns ''/opt/ffmpeg'', r_mkdtemp = Returns ''/tmp/tmpab'', r_link = Returns (),
      r_pathsep = '':'', r_import_whisper = Raises ImportError, r_load_model = Returns (),
      r_transcribe = Returns ''Hello'', r_pip_install = Returns (),
      r_import_whisper2 = Returns (), r_load_model2 = Raises OtherError, r_transcribe2 = Returns ''Hello''\<rparr>
     \<lparr>temp_dirs = {}, path_env = Some ''/usr/bin''\<rparr>
   = (Inl OtherError, \<lparr>temp_dirs = {''/tmp/tmpab''}, path_env = Some ''/tmp/tmpab:/usr/bin''\<rparr>)"
  by (simp add: transcribe_audio_def setup_ffmpeg_def whisper_steps_def cleanup_def Let_def
          is_exception_def)

text \<open>
  An exception that is not an \<open>Exception\<close>, such as the \<open>KeyboardInterrupt\<close> of a user
  who stops the transcription, passes every handler: the directory remains.
\<close>

lemma transcribe_audio_interrupted:
  "transcribe_audio
     \<lparr>r_imageio = Returns ''/opt/ffmpeg'', r_mkdtemp = Returns ''/tmp/tmpab'', r_link = Returns (),
      r_pathsep = '':'', r_import_whisper = Returns (), r_load_model = Returns (),
      r_transcribe = Raises Interrupt, r_pip_install = Returns (),
      r_import_whisper2 = Returns (), r_load_model2 = Returns (), r_transcribe2 = Returns ''Hello''\<rparr>
     \<lparr>temp_dirs = {}, path_env = Some ''/usr/bin''\<rparr>
   = (Inl Interrupt, \<lparr>temp_dirs = {''/tmp/tmpab''}, path_env = Some ''/tmp/tmpab:/usr/bin''\<rparr>)"
  by (simp add: transcribe_audio_def setup_ffmpeg_def whisper_steps_def cleanup_def Let_def
        is_exception_def)

section \<open>The claim about an existing target file\<close>

lemma temp_name_hd: "hd (temp_name stem) = CHR ''t''"
  by (simp add: temp_name_def)

lemma target_not_temp:
  assumes "find_first_name transcription = Inr name"
      and "target_name name = Inr final_mp3"
  shows "final_mp3 \<noteq> temp_name stem"
proof (cases name)
  case None
  with assms(2) have "hd final_mp3 = CHR ''a''"
    by (auto simp: target_name_def)
  then show ?thesis
    using temp_name_hd [of stem] by auto
next
  case (Some n)
  with assms(1) have q: "qualifies n" and w: "\<forall>c\<in>set n. word_char c"
    using find_first_name_valid by blast+
  from target_name_valid [OF q w] assms(2) Some have f: "final_mp3 = n @ ''.mp3''"
    by simp
  from q have "n \<noteq> []" and "isupper (hd n)"
    by (simp_all add: qualifies_def)
  with f have "isupper (hd final_mp3)"
    by simp
  moreover have "\<not> isupper (CHR ''t'')"
    by (simp add: isupper_def in_range_def)
  ultimately show ?thesis
    using temp_name_hd [of stem] by auto
qed

text \<open>
  C7. When the audio was extracted and transcribed and a file with the name of the target
  exists, \<open>process_video\<close> returns \<open>True\<close>; afterwards the temporary file is gone, the
  target and every other file are as before, and \<open>main\<close> counts the video as successful.
\<close>

theorem skip_existing_target:
  assumes "(if v_check_ffmpeg v then v_ffmpeg v else v_imageio_ffmpeg v) = Extracted audio"
      and "transcribe_audio (v_run v) (os w) = (Inr transcription, os1)"
      and "find_first_name transcription = Inr name"
      and "target_name name = Inr final_mp3"
      and "files w final_mp3 = Some old"
  shows "process_video v w
           = (Inr True, \<lparr>files = (files w)(temp_name (v_stem v) := None), os = os1\<rparr>)
         \<and> ((files w)(temp_name (v_stem v) := None)) final_mp3 = Some old
         \<and> ((files w)(temp_name (v_stem v) := None)) (temp_name (v_stem v)) = None
         \<and> main_loop [v] w (successful, failed)
           = ((successful + 1, failed),
              \<lparr>files = (files w)(temp_name (v_stem v) := None), os = os1\<rparr>)"
proof -
  have ne: "final_mp3 \<noteq> temp_name (v_stem v)"
    using assms(3,4) by (rule target_not_temp)
  have fin: "finalize ((files w)(temp_name (v_stem v) \<mapsto> audio)) (temp_name (v_stem v)) final_mp3
               = (Inr True, (files w)(temp_name (v_stem v) := None))"
    using ne assms(5) by (simp add: finalize_def)
  have pv: "process_video v w
              = (Inr True, \<lparr>files = (files w)(temp_name (v_stem v) := None), os = os1\<rparr>)"
    using assms(1,2,3,4) fin by (simp add: process_video_def Let_def)
  have keep: "((files w)(temp_name (v_stem v) := None)) final_mp3 = Some old"
    using ne assms(5) by simp
  from pv keep show ?thesis
    by simp
qed

theorem skip_existing_target_witness:
  "process_video
     \<lparr>v_stem = ''clip'', v_check_ffmpeg = True, v_ffmpeg = Extracted ''new audio'',
      v_imageio_ffmpeg = ExtractFailed None,
      v_run = \<lparr>r_imageio = Returns ''/opt/ffmpeg'', r_mkdtemp = Returns ''/tmp/tmpab'',
        r_link = Returns (), r_pathsep = '':'', r_import_whisper = Returns (),
        r_load_model = Returns (), r_transcribe = Returns ''I am Maria Lopez'',
        r_pip_install = Returns (), r_import_whisper2 = Returns (), r_load_model2 = Returns (),
        r_transcribe2 = Returns ''''\<rparr>\<rparr>
     \<lparr>files = [''Maria.mp3'' \<mapsto> ''old audio''], os = \<lparr>temp_dirs = {}, path_env = None\<rparr>\<rparr>
   = (Inr True,
      \<lparr>files = [''Maria.mp3'' \<mapsto> ''old audio''](''temp_audio_clip.mp3'' := None),
       os = \<lparr>temp_dirs = {}, path_env = Some ''/tmp/tmpab:''\<rparr>\<rparr>)
   \<and> ([''Maria.mp3'' \<mapsto> ''old audio''](''temp_audio_clip.mp3'' := None)) ''Maria.mp3''
       = Some ''old audio''"
proof -
  let ?r = "\<lparr>r_imageio = Returns ''/opt/ffmpeg'', r_mkdtemp = Returns ''/tmp/tmpab'',
        r_link = Returns (), r_pathsep = '':'', r_import_whisper = Returns (),
        r_load_model = Returns (), r_transcribe = Returns ''I am Maria Lopez'',
        r_pip_install = Returns (), r_import_whisper2 = Returns (), r_load_model2 = Returns (),
        r_transcribe2 = Returns ''''\<rparr>"
  let ?v = "\<lparr>v_stem = ''clip'', v_check_ffmpeg = True, v_ffmpeg = Extracted ''new audio'',
      v_imageio_ffmpeg = ExtractFailed None, v_run = ?r\<rparr>"
  let ?w = "\<lparr>files = [''Maria.mp3'' \<mapsto> ''old audio''], os = \<lparr>temp_dirs = {}, path_env = None\<rparr>\<rparr>"
  have a1: "(if v_check_ffmpeg ?v then v_ffmpeg ?v else v_imageio_ffmpeg ?v) = Extracted ''new audio''"
    by simp
  have a2: "transcribe_audio (v_run ?v) (os ?w)
              = (Inr ''I am Maria Lopez'', \<lparr>temp_dirs = {}, path_env = Some ''/tmp/tmpab:''\<rparr>)"
    by (simp add: transcribe_audio_def setup_ffmpeg_def whisper_steps_def cleanup_def Let_def
          is_exception_def)
  have a3: "find_first_name ''I am Maria Lopez'' = Inr (Some ''Maria'')"
    by (simp add: char_eval rx_eval name_eval)
  have a4: "target_name (Some ''Maria'') = Inr ''Maria.mp3''"
    by (simp add: target_name_def first_token_def split.simps sanitize_def strip_def
          is_sep_def char_eval)
  have a5: "files ?w ''Maria.mp3'' = Some ''old audio''"
    by simp
  from skip_existing_target [OF a1 a2 a3 a4 a5, of 0 0] show ?thesis
    by (simp add: temp_name_def)
qed

section \<open>The fallback scan\<close>

lemma pair_at_0:
  "pair_at (x # xs) 0 =
     (qualifies (strip_nonword x)
      \<and> (case xs of [] \<Rightarrow> False | y # _ \<Rightarrow> qualifies (strip_nonword y)))"
  by (cases xs) (auto simp: pair_at_def)

lemma pair_at_Suc: "pair_at (x # xs) (Suc i) = pair_at xs i"
  by (simp add: pair_at_def)

lemma fallback_scan_first_pair:
  "fallback_scan k ws = Some w \<longleftrightarrow>
     (\<exists>i<k. pair_at ws i \<and> w = strip_nonword (ws ! i) \<and> (\<forall>j<i. \<not> pair_at ws j))"
proof (induction k ws rule: fallback_scan.induct)
  case (1 ws)
  show ?case by simp
next
  case (2 n)
  show ?case by (simp add: pair_at_def)
next
  case (3 n word rest)
  show ?case
  proof (cases "pair_at (word # rest) 0")
    case True
    then have l: "fallback_scan (Suc n) (word # rest) = Some (strip_nonword word)"
      by (simp add: pair_at_0 Let_def)
    have "(\<exists>i<Suc n. pair_at (word # rest) i \<and> w = strip_nonword ((word # rest) ! i)
              \<and> (\<forall>j<i. \<not> pair_at (word # rest) j))
          \<longleftrightarrow> w = strip_nonword word"
    proof
      assume "\<exists>i<Suc n. pair_at (word # rest) i \<and> w = strip_nonword ((word # rest) ! i)
              \<and> (\<forall>j<i. \<not> pair_at (word # rest) j)"
      then obtain i where i: "w = strip_nonword ((word # rest) ! i)"
          and m: "\<forall>j<i. \<not> pair_at (word # rest) j"
        by blast
      from m True have "i = 0"
        by (cases i) auto
      with i show "w = strip_nonword word"
        by simp
    next
      assume "w = strip_nonword word"
      with True show "\<exists>i<Suc n. pair_at (word # rest) i \<and> w = strip_nonword ((word # rest) ! i)
              \<and> (\<forall>j<i. \<not> pair_at (word # rest) j)"
        by (intro exI [of _ 0]) simp
    qed
    with l show ?thesis
      by auto
  next
    case False
    then have l: "fallback_scan (Suc n) (word # rest) = fallback_scan n rest"
      by (auto simp: pair_at_0 Let_def)
    have ih: "fallback_scan n rest = Some w \<longleftrightarrow>
        (\<exists>i<n. pair_at rest i \<and> w = strip_nonword (rest ! i) \<and> (\<forall>j<i. \<not> pair_at rest j))"
      using False "3.IH" by (auto simp: pair_at_0)
    have "(\<exists>i<Suc n. pair_at (word # rest) i \<and> w = strip_nonword ((word # rest) ! i)
              \<and> (\<forall>j<i. \<not> pair_at (word # rest) j))
          \<longleftrightarrow> (\<exists>i<n. pair_at rest i \<and> w = strip_nonword (rest ! i) \<and> (\<forall>j<i. \<not> pair_at rest j))"
    proof
      assume "\<exists>i<Suc n. pair_at (word # rest) i \<and> w = strip_nonword ((word # rest) ! i)
              \<and> (\<forall>j<i. \<not> pair_at (word # rest) j)"
      then obtain i where b: "i < Suc n" and p: "pair_at (word # rest) i"
          and i: "w = strip_nonword ((word # rest) ! i)"
          and m: "\<forall>j<i. \<not> pair_at (word # rest) j"
        by blast
      from p False obtain i' where s: "i = Suc i'"
        by (cases i) auto
      have "\<forall>j<i'. \<not> pair_at rest j"
      proof (intro allI impI)
        fix j assume "j < i'"
        then have "Suc j < i" using s by simp
        with m have "\<not> pair_at (word # rest) (Suc j)" by blast
        then show "\<not> pair_at rest j" by (simp add: pair_at_Suc)
      qed
      with b p i s show "\<exists>i<n. pair_at rest i \<and> w = strip_nonword (rest ! i) \<and> (\<forall>j<i. \<not> pair_at rest j)"
        by (intro exI [of _ i']) (simp add: pair_at_Suc)
    next
      assume "\<exists>i<n. pair_at rest i \<and> w = strip_nonword (rest ! i) \<and> (\<forall>j<i. \<not> pair_at rest j)"
      then obtain i where b: "i < n" and p: "pair_at rest i"
          and i: "w = strip_nonword (rest ! i)" and m: "\<forall>j<i. \<not> pair_at rest j"
        by blast
      have "\<forall>j<Suc i. \<not> pair_at (word # rest) j"
      proof (intro allI impI)
        fix j assume j: "j < Suc i"
        show "\<not> pair_at (word # rest) j"
        proof (cases j)
          case 0
          with False show ?thesis by simp
        next
          case (Suc j')
          with j m show ?thesis by (simp add: pair_at_Suc)
        qed
      qed
      with b p i show "\<exists>i<Suc n. pair_at (word # rest) i \<and> w = strip_nonword ((word # rest) ! i)
              \<and> (\<forall>j<i. \<not> pair_at (word # rest) j)"
        by (intro exI [of _ "Suc i"]) (simp add: pair_at_Suc)
    qed
    with l ih show ?thesis
      by simp
  qed
qed

lemma find_from_all_None:
  "\<forall>p\<in>set ps. candidate p t = Inr None \<Longrightarrow> find_from ps t = find_from [] t"
  by (induction ps) simp_all

section \<open>The shape of a match\<close>

lemma of_char_lower_char:
  "isupper c \<Longrightarrow> (of_char (lower_char c) :: nat) = of_char c + 32"
  by (auto simp: lower_char_def isupper_def in_range_def)

lemma of_char_upper_char:
  "(of_char (upper_char c) :: nat) =
     (if in_range 97 122 c \<or> in_range 224 246 c \<or> in_range 248 254 c
      then of_char c - 32 else of_char c)"
  by (auto simp: upper_char_def in_range_def)

lemma range_upper_letter:
  "cset_match (Range CHR ''A'' CHR ''Z'') x \<Longrightarrow> in_range 65 90 x \<or> in_range 97 122 x"
  by (cases "isupper x")
     (auto simp: in_range_def of_char_upper_char of_char_lower_char lower_char_def isupper_def
           split: if_splits)

lemma range_lower_letter:
  "cset_match (Range CHR ''a'' CHR ''z'') x \<Longrightarrow> in_range 65 90 x \<or> in_range 97 122 x"
  by (cases "isupper x")
     (auto simp: in_range_def of_char_upper_char of_char_lower_char lower_char_def isupper_def
           split: if_splits)

lemma One_elim:
  assumes "rx_match (One c # ops) prev s pos g = Some r"
  obtains x ys where "s = x # ys" and "cset_match c x"
    and "rx_match ops (Some x) ys (Suc pos) g = Some r"
  using assms by (cases s) (auto split: if_splits)

lemma Rep1_split:
  "rx_match (Rep1 c # ops) prev s pos g = Some r \<Longrightarrow>
     \<exists>xs x ys. s = xs @ x # ys \<and> (\<forall>a\<in>set xs. cset_match c a) \<and> cset_match c x
        \<and> rx_match ops (Some x) ys (pos + length xs + 1) g = Some r"
proof (induction s arbitrary: prev pos)
  case Nil
  then show ?case by simp
next
  case (Cons y s)
  from Cons.prems have y: "cset_match c y"
    by (simp split: if_splits)
  show ?case
  proof (cases "rx_match (Rep1 c # ops) (Some y) s (Suc pos) g")
    case None
    with Cons.prems y have "rx_match ops (Some y) s (Suc pos) g = Some r"
      by simp
    with y show ?thesis
      by - (rule exI [of _ "[]"], rule exI [of _ y], rule exI [of _ s], simp)
  next
    case (Some r')
    with Cons.prems y have "rx_match (Rep1 c # ops) (Some y) s (Suc pos) g = Some r"
      by simp
    from Cons.IH [OF this] obtain xs x ys where
      "s = xs @ x # ys" "\<forall>a\<in>set xs. cset_match c a" "cset_match c x"
      "rx_match ops (Some x) ys (Suc pos + length xs + 1) g = Some r"
      by blast
    with y show ?thesis
      by - (rule exI [of _ "y # xs"], rule exI [of _ x], rule exI [of _ ys], simp)
  qed
qed

lemma Rep1_elim:
  assumes "rx_match (Rep1 c # ops) prev s pos g = Some r"
  obtains xs x ys where "s = xs @ x # ys" and "\<forall>a\<in>set xs. cset_match c a" and "cset_match c x"
    and "rx_match ops (Some x) ys (pos + length xs + 1) g = Some r"
  using Rep1_split [OF assms] by blast

lemma prefix_split:
  "rx_match (ops1 @ ops2) prev s pos g = Some r \<Longrightarrow>
     \<exists>xs ys prev' g'. s = xs @ ys \<and> rx_match ops2 prev' ys (pos + length xs) g' = Some r"
proof (induction ops1 arbitrary: prev s pos g)
  case Nil
  then show ?case
    by - (rule exI [of _ "[]"], rule exI [of _ s], rule exI [of _ prev], rule exI [of _ g], simp)
next
  case (Cons o1 ops1)
  show ?case
  proof (cases o1)
    case (One c)
    with Cons.prems obtain x ys where s: "s = x # ys"
        and m: "rx_match (ops1 @ ops2) (Some x) ys (Suc pos) g = Some r"
      by (auto elim: One_elim)
    from Cons.IH [OF m] obtain xs zs prev' g' where
      "ys = xs @ zs" "rx_match ops2 prev' zs (Suc pos + length xs) g' = Some r"
      by blast
    with s show ?thesis
      by - (rule exI [of _ "x # xs"], rule exI [of _ zs], rule exI [of _ prev'], rule exI [of _ g'], simp)
  next
    case (Rep1 c)
    with Cons.prems obtain us x ys where s: "s = us @ x # ys"
        and m: "rx_match (ops1 @ ops2) (Some x) ys (pos + length us + 1) g = Some r"
      by (auto elim: Rep1_elim)
    from Cons.IH [OF m] obtain xs zs prev' g' where
      "ys = xs @ zs" "rx_match ops2 prev' zs (pos + length us + 1 + length xs) g' = Some r"
      by blast
    with s show ?thesis
      by - (rule exI [of _ "us @ x # xs"], rule exI [of _ zs], rule exI [of _ prev'], rule exI [of _ g'],
          simp add: add.assoc)
  next
    case WordB
    with Cons.prems have "rx_match (ops1 @ ops2) prev s pos g = Some r"
      by (simp split: if_splits)
    from Cons.IH [OF this] show ?thesis .
  next
    case GroupOpen
    with Cons.prems have "rx_match (ops1 @ ops2) prev s pos (Some pos, snd g) = Some r"
      by simp
    from Cons.IH [OF this] show ?thesis .
  next
    case GroupClose
    with Cons.prems have "rx_match (ops1 @ ops2) prev s pos (fst g, Some pos) = Some r"
      by simp
    from Cons.IH [OF this] show ?thesis .
  qed
qed

lemma name_group_split:
  assumes "rx_match (name_group @ ops) prev s pos g = Some r"
  shows "\<exists>name x ys. s = name @ ys \<and> 2 \<le> length name \<and> ascii_letters name \<and> x = last name
           \<and> rx_match ops (Some x) ys (pos + length name) (Some pos, Some (pos + length name)) = Some r"
proof -
  from assms have
    "rx_match (One (Range CHR ''A'' CHR ''Z'') # Rep1 (Range CHR ''a'' CHR ''z'') # GroupClose # ops)
       prev s pos (Some pos, snd g) = Some r"
    by (simp add: name_group_def)
  then obtain a s1 where s: "s = a # s1" and a: "cset_match (Range CHR ''A'' CHR ''Z'') a"
      and m1: "rx_match (Rep1 (Range CHR ''a'' CHR ''z'') # GroupClose # ops)
                 (Some a) s1 (Suc pos) (Some pos, snd g) = Some r"
    by (rule One_elim)
  from m1 obtain xs x ys where s1: "s1 = xs @ x # ys"
      and xs: "\<forall>c\<in>set xs. cset_match (Range CHR ''a'' CHR ''z'') c"
      and x: "cset_match (Range CHR ''a'' CHR ''z'') x"
      and m2: "rx_match (GroupClose # ops) (Some x) ys (Suc pos + length xs + 1) (Some pos, snd g) = Some r"
    by (rule Rep1_elim)
  let ?name = "a # xs @ [x]"
  have "ascii_letters ?name"
    using a xs x range_upper_letter range_lower_letter by (auto simp: ascii_letters_def)
  moreover have "s = ?name @ ys"
    using s s1 by simp
  moreover from m2 have
    "rx_match ops (Some x) ys (pos + length ?name) (Some pos, Some (pos + length ?name)) = Some r"
    by simp
  ultimately show ?thesis
    by - (rule exI [of _ ?name], rule exI [of _ x], rule exI [of _ ys], simp)
qed

lemma search_from_split:
  "search_from ops prev s pos = Some m \<Longrightarrow>
     \<exists>pre suf prev'. s = pre @ suf \<and> m_start m = pos + length pre
        \<and> rx_match ops prev' suf (pos + length pre) (None, None) = Some (m_end m, m_marks m)"
proof (induction s arbitrary: prev pos)
  case Nil
  then show ?case
    by - (rule exI [of _ "[]"], rule exI [of _ "[]"], rule exI [of _ prev], auto split: option.splits)
next
  case (Cons x s)
  show ?case
  proof (cases "rx_match ops prev (x # s) pos (None, None)")
    case (Some r)
    with Cons.prems show ?thesis
      by - (rule exI [of _ "[]"], rule exI [of _ "x # s"], rule exI [of _ prev], auto split: prod.splits)
  next
    case None
    with Cons.prems have "search_from ops (Some x) s (Suc pos) = Some m"
      by simp
    from Cons.IH [OF this] obtain pre suf prev' where
      "s = pre @ suf" "m_start m = Suc pos + length pre"
      "rx_match ops prev' suf (Suc pos + length pre) (None, None) = Some (m_end m, m_marks m)"
      by blast
    then show ?thesis
      by - (rule exI [of _ "x # pre"], rule exI [of _ suf], rule exI [of _ prev'], simp)
  qed
qed

lemma slice_middle: "slice (pre @ mid @ suf) (length pre) (length pre + length mid) = mid"
  by (simp add: slice_def)

lemma rx_match_marks:
  "rx_match ops prev s pos g = Some (e, g') \<Longrightarrow> GroupOpen \<notin> set ops \<Longrightarrow> GroupClose \<notin> set ops
   \<Longrightarrow> g' = g"
  by (induction ops prev s pos g rule: rx_match.induct) (auto split: if_splits option.splits)

lemma rx_match_end:
  "rx_match ops prev s pos g = Some (e, g') \<Longrightarrow> pos \<le> e \<and> e \<le> pos + length s"
  by (induction ops prev s pos g rule: rx_match.induct)
     (fastforce split: if_splits option.splits)+

lemma ascii_letters_word: "ascii_letters s \<Longrightarrow> \<forall>c\<in>set s. word_char c"
  by (auto simp: ascii_letters_def word_char_def isalnum_def)

lemma ascii_letters_no_space: "ascii_letters s \<Longrightarrow> \<forall>c\<in>set s. \<not> isspace c"
  using ascii_letters_word word_char_not_space by blast

lemma first_token_before_space:
  assumes "name \<noteq> []" and "\<forall>c\<in>set name. \<not> isspace c" and "isspace sp"
  shows "first_token (name @ sp # r) = Inr name"
proof -
  obtain c cs where n: "name = c # cs"
    using assms(1) by (cases name) auto
  have d: "dropWhile isspace (name @ sp # r) = c # (cs @ sp # r)"
    using assms(2) n by simp
  have t: "takeWhile (\<lambda>x. \<not> isspace x) (cs @ sp # r) = cs"
    using assms(2,3) n by (simp add: takeWhile_append)
  have "split (name @ sp # r)
          = (c # takeWhile (\<lambda>x. \<not> isspace x) (cs @ sp # r))
            # split (dropWhile (\<lambda>x. \<not> isspace x) (cs @ sp # r))"
    by (subst split.simps) (simp add: d)
  then show ?thesis
    by (simp add: first_token_def t n)
qed

lemma here_match_shape:
  assumes "re_search here_pattern text = Some m"
  shows "\<exists>name sp r. match_group text m 1 = name \<and> match_group text m 0 = name @ sp # r
           \<and> 2 \<le> length name \<and> ascii_letters name \<and> isspace sp"
proof -
  from assms obtain pre suf prev' where t: "text = pre @ suf" and st: "m_start m = length pre"
      and m0: "rx_match here_pattern prev' suf (length pre) (None, None) = Some (m_end m, m_marks m)"
    using search_from_split [of here_pattern None "text" 0 m] by (auto simp: re_search_def)
  let ?rest = "Rep1 Space # lits ''here'' @ [WordB]"
  from m0 have "rx_match (name_group @ ?rest) prev' suf (length pre) (None, None)
                  = Some (m_end m, m_marks m)"
    by (simp add: here_pattern_def)
  from name_group_split [OF this] obtain name x ys where suf: "suf = name @ ys"
      and len: "2 \<le> length name" and ltr: "ascii_letters name"
      and m1: "rx_match ?rest (Some x) ys (length pre + length name)
                 (Some (length pre), Some (length pre + length name)) = Some (m_end m, m_marks m)"
    by blast
  from m1 obtain us w zs where ys: "ys = us @ w # zs"
      and us: "\<forall>a\<in>set us. cset_match Space a" and w: "cset_match Space w"
      and m2: "rx_match (lits ''here'' @ [WordB]) (Some w) zs (length pre + length name + length us + 1)
                 (Some (length pre), Some (length pre + length name)) = Some (m_end m, m_marks m)"
    by (rule Rep1_elim)
  from ys us w obtain sp ys' where ys': "ys = sp # ys'" and sp: "isspace sp"
    by (cases us) auto
  have marks: "m_marks m = (Some (length pre), Some (length pre + length name))"
    using rx_match_marks [OF m2] by (simp add: lits_def)
  have "length pre + length name + length us + 1 \<le> m_end m"
    using rx_match_end [OF m2] by simp
  then have e: "length pre + length name + 1 \<le> m_end m"
    by simp
  have g1: "match_group text m 1 = name"
    using marks t suf slice_middle [of pre name ys] by (simp add: match_group_1)
  have "match_group text m 0 = take (m_end m - length pre) (name @ sp # ys')"
    using st t suf ys' by (simp add: slice_def match_group_0)
  also have "\<dots> = name @ sp # take (m_end m - length pre - length name - 1) ys'"
    using e by (simp add: take_Cons')
  finally have g0: "match_group text m 0 = name @ sp # take (m_end m - length pre - length name - 1) ys'" .
  from g1 g0 len ltr sp show ?thesis
    by blast
qed

lemma tail_group_shape:
  assumes "re_search (ops @ name_group) text = Some m"
  shows "2 \<le> length (match_group text m 1) \<and> ascii_letters (match_group text m 1)"
proof -
  from assms obtain pre suf prev' where t: "text = pre @ suf"
      and m0: "rx_match (ops @ name_group) prev' suf (length pre) (None, None)
                 = Some (m_end m, m_marks m)"
    using search_from_split [of "ops @ name_group" None "text" 0 m] by (auto simp: re_search_def)
  from prefix_split [OF m0] obtain xs ys prev'' g' where suf: "suf = xs @ ys"
      and m1: "rx_match (name_group @ []) prev'' ys (length pre + length xs) g'
                 = Some (m_end m, m_marks m)"
    by auto
  from name_group_split [OF m1] obtain name zs where ys: "ys = name @ zs"
      and len: "2 \<le> length name" and ltr: "ascii_letters name"
      and marks: "m_marks m = (Some (length pre + length xs), Some (length pre + length xs + length name))"
    by auto
  have "text = (pre @ xs) @ name @ zs"
    using t suf ys by simp
  then have "match_group text m 1 = name"
    using marks slice_middle [of "pre @ xs" name zs] by (simp add: match_group_1)
  with len ltr show ?thesis
    by simp
qed

lemma candidate_group_no_error:
  assumes "snd p = 1" and "fst p = ops @ name_group"
  shows "candidate p t \<noteq> Inl e"
proof (cases "re_search (fst p) t")
  case None
  then show ?thesis
    by (simp add: candidate_def)
next
  case (Some m)
  with assms(2) have "2 \<le> length (match_group t m 1) \<and> ascii_letters (match_group t m 1)"
    using tail_group_shape by simp
  then have "match_group t m 1 \<noteq> []" and "\<forall>c\<in>set (match_group t m 1). \<not> isspace c"
    using ascii_letters_no_space [of "match_group t m 1"] by auto
  then have "first_token (match_group t m 1) = Inr (match_group t m 1)"
    by (rule first_token_no_space)
  moreover have "has_groups (fst p)"
    using assms(2) by (simp add: has_groups_def name_group_def)
  ultimately show ?thesis
    using Some assms(1) by (simp add: candidate_def Let_def)
qed

lemma candidate_here:
  assumes "re_search here_pattern t = Some m"
  shows "candidate (here_pattern, 0) t =
           (let name = match_group t m 1
            in if length name > 2 \<and> \<not> is_skip_word name \<and> isupper (hd name)
               then Inr (Some name) else Inr None)"
proof -
  from here_match_shape [OF assms] obtain name sp r where g1: "match_group t m 1 = name"
      and g0: "match_group t m 0 = name @ sp # r" and len: "2 \<le> length name"
      and ltr: "ascii_letters name" and sp: "isspace sp"
    by blast
  from len have ne: "name \<noteq> []"
    by auto
  have ft: "first_token (name @ sp # r) = Inr name"
    using ne ascii_letters_no_space [OF ltr] sp by (rule first_token_before_space)
  have sn: "strip_nonword name = name"
    using ascii_letters_word [OF ltr] by (simp add: strip_nonword_def filter_id_conv)
  have hg: "has_groups here_pattern"
    by (simp add: has_groups_def here_pattern_def name_group_def)
  show ?thesis
    using assms g0 g1 ft sn hg ne by (simp add: candidate_def Let_def)
qed

lemma candidate_here_no_error: "candidate (here_pattern, 0) t \<noteq> Inl e"
proof (cases "re_search here_pattern t")
  case None
  then show ?thesis
    by (simp add: candidate_def)
next
  case (Some m)
  then show ?thesis
    by (simp add: candidate_here Let_def)
qed

lemma candidate_no_error:
  assumes "p \<in> set priority_patterns"
  shows "candidate p t \<noteq> Inl e"
proof -
  from assms consider "p = (here_pattern, 0)"
    | ops where "snd p = 1" "fst p = ops @ name_group"
    by (auto simp: priority_patterns_def my_name_is_pattern_def i_am_pattern_def im_pattern_def
          this_is_pattern_def simp flip: append_assoc)
  then show ?thesis
  proof cases
    case 1
    then show ?thesis
      by (simp add: candidate_here_no_error)
  next
    case 2
    then show ?thesis
      by (rule candidate_group_no_error)
  qed
qed

lemma find_from_no_valid:
  assumes "\<forall>p\<in>set ps. \<forall>e. candidate p t \<noteq> Inl e"
      and "\<forall>p\<in>set ps. \<forall>n. candidate p t \<noteq> Inr (Some n)"
  shows "find_from ps t = find_from [] t"
proof -
  have "\<forall>p\<in>set ps. candidate p t = Inr None"
  proof
    fix p assume "p \<in> set ps"
    with assms have "\<forall>e. candidate p t \<noteq> Inl e" and "\<forall>n. candidate p t \<noteq> Inr (Some n)"
      by blast+
    then show "candidate p t = Inr None"
      by (metis old.sum.exhaust option.exhaust)
  qed
  then show ?thesis
    by (rule find_from_all_None)
qed

lemma find_first_name_no_error: "find_first_name text \<noteq> Inl e"
proof -
  have "find_from ps t \<noteq> Inl e" if "\<forall>p\<in>set ps. \<forall>e. candidate p t \<noteq> Inl e" for ps t
    using that by (induction ps) (auto split: sum.splits option.splits)
  then show ?thesis
    using candidate_no_error by (simp add: find_first_name_def Let_def)
qed

section \<open>The claims about the two phases\<close>

lemma find_first_name_alt: "find_first_name text = find_from priority_patterns (take 500 text)"
  unfolding find_first_name_def Let_def by (cases "length text > 500") simp_all

text \<open>
  C2, as the code has it. \<open>re.search\<close> gives the leftmost match of
  \<open>([A-Z][a-z]+)\s+here\b\<close> in the first 500 characters, and the code looks at no other.
  When the word before \<open>here\<close> in that match starts with an uppercase letter, is longer
  than 2 and is not a stopword, \<open>find_first_name\<close> returns that word, in the casing of
  the transcript.
\<close>

theorem name_here_returned:
  assumes "re_search here_pattern (take 500 text) = Some m"
      and "match_group (take 500 text) m 1 = name"
      and "isupper (hd name)" and "length name > 2" and "\<not> is_skip_word name"
  shows "find_first_name text = Inr (Some name)"
proof -
  have "candidate (here_pattern, 0) (take 500 text) = Inr (Some name)"
    using assms by (simp add: candidate_here Let_def)
  then show ?thesis
    by (simp add: find_first_name_alt priority_patterns_def)
qed

theorem name_here_returned_witness:
  "re_search here_pattern (take 500 ''Well, Sarah here today'')
     = Some \<lparr>m_start = 6, m_end = 16, m_marks = (Some 6, Some 11)\<rparr>
   \<and> match_group (take 500 ''Well, Sarah here today'')
        \<lparr>m_start = 6, m_end = 16, m_marks = (Some 6, Some 11)\<rparr> 1 = ''Sarah''
   \<and> isupper (hd ''Sarah'') \<and> length ''Sarah'' > 2 \<and> \<not> is_skip_word ''Sarah''
   \<and> find_first_name ''Well, Sarah here today'' = Inr (Some ''Sarah'')"
proof -
  let ?m = "\<lparr>m_start = 6, m_end = 16, m_marks = (Some 6, Some 11)\<rparr>"
  have a1: "re_search here_pattern (take 500 ''Well, Sarah here today'') = Some ?m"
    by (simp add: char_eval rx_eval)
  have a2: "match_group (take 500 ''Well, Sarah here today'') ?m 1 = ''Sarah''"
    by (simp add: rx_eval)
  have a3: "isupper (hd ''Sarah'')"
    by (simp add: char_eval)
  have a4: "length ''Sarah'' > 2"
    by simp
  have a5: "\<not> is_skip_word ''Sarah''"
    by (simp add: char_eval name_eval)
  from name_here_returned [OF a1 a2 a3 a4 a5] a1 a2 a3 a4 a5 show ?thesis
    by simp
qed

text \<open>
  C2, as the claim has it, fails. In the transcript below \<open>Sarah here\<close> is a match of the
  pattern at index 17, and \<open>Sarah\<close> passes the tests; but the leftmost match is
  \<open>be here\<close>, its word is rejected, no other pattern matches and no two adjacent words
  pass the tests: no name is returned.
\<close>

theorem later_name_here_shadowed:
  "find_first_name ''Glad to be here. Sarah here, and today'' = Inr None
   \<and> ''Glad to be here. Sarah here, and today'' = ''Glad to be here. '' @ ''Sarah here, and today''
   \<and> rx_match here_pattern (Some CHR '' '') ''Sarah here, and today'' 17 (None, None)
       = Some (27, (Some 17, Some 22))
   \<and> slice ''Glad to be here. Sarah here, and today'' 17 22 = ''Sarah''
   \<and> qualifies ''Sarah''"
proof -
  let ?t = "''Glad to be here. Sarah here, and today''"
  have tk: "take 500 ?t = ?t" "take 200 ?t = ?t"
    by simp_all
  have c1: "candidate (here_pattern, 0) ?t = Inr None"
    by (simp add: char_eval rx_eval name_eval)
  have c2: "candidate (my_name_is_pattern, 1) ?t = Inr None"
    by (simp add: char_eval rx_eval name_eval)
  have c3: "candidate (i_am_pattern, 1) ?t = Inr None"
    by (simp add: char_eval rx_eval name_eval)
  have c4: "candidate (im_pattern, 1) ?t = Inr None"
    by (simp add: char_eval rx_eval name_eval)
  have c5: "candidate (this_is_pattern, 1) ?t = Inr None"
    by (simp add: char_eval rx_eval name_eval)
  have f: "fallback_scan 15 (split ?t) = None"
    by (simp add: char_eval name_eval)
  have n: "find_first_name ?t = Inr None"
    by (simp only: find_first_name_alt tk priority_patterns_def find_from.simps c1 c2 c3 c4 c5 f)
       simp
  have m: "rx_match here_pattern (Some CHR '' '') ''Sarah here, and today'' 17 (None, None)
             = Some (27, (Some 17, Some 22))"
    by (simp add: char_eval rx_eval)
  have s: "slice ?t 17 22 = ''Sarah''"
    by (simp add: slice_def)
  have q: "qualifies ''Sarah''"
    by (simp add: char_eval name_eval)
  from n m s q show ?thesis
    by simp
qed

text \<open>
  C3. A match of a pattern whose candidate fails the validation does not end the search:
  the result is that of the patterns after it, and, after the last one, of the fallback
  scan.
\<close>

theorem invalid_candidate_continues:
  assumes "re_search (fst p) intro_text = Some m"
      and "first_token (if has_groups (fst p) then match_group intro_text m (snd p)
                        else match_group intro_text m 0) = Inr tok"
      and "name = strip_nonword tok"
      and "name = [] \<or> length name \<le> 2 \<or> is_skip_word name \<or> \<not> isupper (hd name)"
  shows "find_from (p # ps) intro_text = find_from ps intro_text"
proof -
  have "candidate p intro_text = Inr None"
    using assms by (auto simp: candidate_def Let_def)
  then show ?thesis
    by simp
qed

theorem invalid_candidate_continues_witness:
  "find_first_name ''Hi here, my name is Bob'' = Inr (Some ''Bob'')
   \<and> find_first_name ''At here Maria Lopez'' = Inr (Some ''Maria'')"
proof -
  let ?rest = "[(my_name_is_pattern, 1), (i_am_pattern, 1), (im_pattern, 1), (this_is_pattern, 1)]"
  have pp: "priority_patterns = (here_pattern, 0) # ?rest"
    by (simp add: priority_patterns_def)
  let ?m = "\<lparr>m_start = 0, m_end = 7, m_marks = (Some 0, Some 2)\<rparr>"
  have hg: "has_groups here_pattern"
    by (simp add: rx_eval)
  \<comment> \<open>the first transcript: \<open>Hi\<close> is rejected, \<open>my name is Bob\<close> gives the name\<close>
  have b1: "re_search (fst (here_pattern, 0 :: nat)) ''Hi here, my name is Bob'' = Some ?m"
    by (simp add: char_eval rx_eval)
  have b2: "first_token (if has_groups (fst (here_pattern, 0 :: nat))
                then match_group ''Hi here, my name is Bob'' ?m (snd (here_pattern, 0 :: nat))
                else match_group ''Hi here, my name is Bob'' ?m 0) = Inr ''Hi''"
    by (simp add: hg) (simp add: char_eval rx_eval name_eval)
  have b3: "''Hi'' = strip_nonword ''Hi''"
    by (simp add: char_eval name_eval)
  have b4: "''Hi'' = [] \<or> length ''Hi'' \<le> 2 \<or> is_skip_word ''Hi'' \<or> \<not> isupper (hd ''Hi'')"
    by simp
  have b5: "find_from ?rest ''Hi here, my name is Bob'' = Inr (Some ''Bob'')"
    by (simp add: char_eval rx_eval name_eval)
  have bob: "find_first_name ''Hi here, my name is Bob'' = Inr (Some ''Bob'')"
    using invalid_candidate_continues [OF b1 b2 b3 b4, of ?rest] b5
    by (simp add: find_first_name_alt pp)
  \<comment> \<open>the second transcript: \<open>At\<close> is rejected, the fallback scan gives the name\<close>
  have c1: "re_search (fst (here_pattern, 0 :: nat)) ''At here Maria Lopez'' = Some ?m"
    by (simp add: char_eval rx_eval)
  have c2: "first_token (if has_groups (fst (here_pattern, 0 :: nat))
                then match_group ''At here Maria Lopez'' ?m (snd (here_pattern, 0 :: nat))
                else match_group ''At here Maria Lopez'' ?m 0) = Inr ''At''"
    by (simp add: hg) (simp add: char_eval rx_eval name_eval)
  have c3: "''At'' = strip_nonword ''At''"
    by (simp add: char_eval name_eval)
  have c4: "''At'' = [] \<or> length ''At'' \<le> 2 \<or> is_skip_word ''At'' \<or> \<not> isupper (hd ''At'')"
    by simp
  have c5: "find_from ?rest ''At here Maria Lopez'' = Inr (Some ''Maria'')"
    by (simp add: char_eval rx_eval name_eval)
  have maria: "find_first_name ''At here Maria Lopez'' = Inr (Some ''Maria'')"
    using invalid_candidate_continues [OF c1 c2 c3 c4, of ?rest] c5
    by (simp add: find_first_name_alt pp)
  from bob maria show ?thesis
    by simp
qed

lemma find_first_name_fallback:
  assumes "\<forall>p\<in>set priority_patterns. \<forall>n. candidate p (take 500 text) \<noteq> Inr (Some n)"
  shows "find_first_name text = Inr (fallback_scan 15 (split (take 200 text)))"
proof -
  have "find_from priority_patterns (take 500 text) = find_from [] (take 500 text)"
    using candidate_no_error assms by (intro find_from_no_valid) blast+
  then show ?thesis
    by (simp add: find_first_name_alt min_def)
qed

lemma priority_patterns_ball:
  "(\<forall>p\<in>set priority_patterns. P p) \<longleftrightarrow>
     P (here_pattern, 0) \<and> P (my_name_is_pattern, 1) \<and> P (i_am_pattern, 1) \<and> P (im_pattern, 1)
     \<and> P (this_is_pattern, 1)"
  by (simp add: priority_patterns_def)

text \<open>
  C5. When no priority pattern gives a name, the result is decided by the words of the
  first 200 characters: a name is returned exactly when one of the first 15 words passes
  the tests and is followed by a word that passes them, and it is the first such word, with
  its non-word characters removed. A word that passes with no such follower is passed over.
\<close>

theorem fallback_requires_pair:
  assumes "\<forall>p\<in>set priority_patterns. \<forall>n. candidate p (take 500 text) \<noteq> Inr (Some n)"
      and "words = split (take 200 text)"
  shows "find_first_name text = Inr (Some w) \<longleftrightarrow>
           (\<exists>i<15. pair_at words i \<and> w = strip_nonword (words ! i) \<and> (\<forall>j<i. \<not> pair_at words j))"
  using find_first_name_fallback [OF assms(1)] assms(2)
  by (simp add: fallback_scan_first_pair)

theorem fallback_requires_pair_witness:
  "find_first_name ''Bob met Maria Lopez'' = Inr (Some ''Maria'')
   \<and> (\<exists>i<15. pair_at [''Bob'', ''met'', ''Maria'', ''Lopez''] i
          \<and> ''Maria'' = strip_nonword ([''Bob'', ''met'', ''Maria'', ''Lopez''] ! i)
          \<and> (\<forall>j<i. \<not> pair_at [''Bob'', ''met'', ''Maria'', ''Lopez''] j))"
proof -
  let ?t = "''Bob met Maria Lopez''"
  have tk: "take 500 ?t = ?t" "take 200 ?t = ?t"
    by simp_all
  have c1: "candidate (here_pattern, 0) ?t = Inr None"
    by (simp add: char_eval rx_eval name_eval)
  have c2: "candidate (my_name_is_pattern, 1) ?t = Inr None"
    by (simp add: char_eval rx_eval name_eval)
  have c3: "candidate (i_am_pattern, 1) ?t = Inr None"
    by (simp add: char_eval rx_eval name_eval)
  have c4: "candidate (im_pattern, 1) ?t = Inr None"
    by (simp add: char_eval rx_eval name_eval)
  have c5: "candidate (this_is_pattern, 1) ?t = Inr None"
    by (simp add: char_eval rx_eval name_eval)
  have a1: "\<forall>p\<in>set priority_patterns. \<forall>n. candidate p (take 500 ?t) \<noteq> Inr (Some n)"
    by (simp only: priority_patterns_ball tk c1 c2 c3 c4 c5) simp
  have a2: "[''Bob'', ''met'', ''Maria'', ''Lopez''] = split (take 200 ?t)"
    by (simp only: tk) (simp add: char_eval name_eval)
  have h: "find_first_name ?t = Inr (Some ''Maria'')"
    by (simp add: char_eval rx_eval name_eval)
  from fallback_requires_pair [OF a1 a2, of "''Maria''"] h show ?thesis
    by simp
qed

text \<open>
  C6. When no priority pattern gives a name and no two adjacent words of the first 200
  characters both pass the tests, \<open>find_first_name\<close> returns \<open>None\<close>, and raises nothing.
\<close>

theorem no_name_found:
  assumes "\<forall>p\<in>set priority_patterns. \<forall>n. candidate p (take 500 text) \<noteq> Inr (Some n)"
      and "words = split (take 200 text)"
      and "\<forall>i. \<not> pair_at words i"
  shows "find_first_name text = Inr None"
proof -
  have "fallback_scan 15 words \<noteq> Some w" for w
    using assms(3) by (simp add: fallback_scan_first_pair)
  then have "fallback_scan 15 words = None"
    by (cases "fallback_scan 15 words") auto
  with find_first_name_fallback [OF assms(1)] assms(2) show ?thesis
    by simp
qed

theorem no_name_found_witness:
  "find_first_name ''Um, okay, Mr Lee was here'' = Inr None"
proof -
  let ?t = "''Um, okay, Mr Lee was here''"
  let ?ws = "[''Um,'', ''okay,'', ''Mr'', ''Lee'', ''was'', ''here'']"
  have tk: "take 500 ?t = ?t" "take 200 ?t = ?t"
    by simp_all
  have c1: "candidate (here_pattern, 0) ?t = Inr None"
    by (simp add: char_eval rx_eval name_eval)
  have c2: "candidate (my_name_is_pattern, 1) ?t = Inr None"
    by (simp add: char_eval rx_eval name_eval)
  have c3: "candidate (i_am_pattern, 1) ?t = Inr None"
    by (simp add: char_eval rx_eval name_eval)
  have c4: "candidate (im_pattern, 1) ?t = Inr None"
    by (simp add: char_eval rx_eval name_eval)
  have c5: "candidate (this_is_pattern, 1) ?t = Inr None"
    by (simp add: char_eval rx_eval name_eval)
  have a1: "\<forall>p\<in>set priority_patterns. \<forall>n. candidate p (take 500 ?t) \<noteq> Inr (Some n)"
    by (simp only: priority_patterns_ball tk c1 c2 c3 c4 c5) simp
  have a2: "?ws = split (take 200 ?t)"
    by (simp only: tk) (simp add: char_eval name_eval)
  have q0: "\<not> qualifies (strip_nonword ''Um,'')"
    by (simp add: char_eval name_eval)
  have q1: "\<not> qualifies (strip_nonword ''okay,'')"
    by (simp add: char_eval name_eval)
  have q2: "\<not> qualifies (strip_nonword ''Mr'')"
    by (simp add: char_eval name_eval)
  have q4: "\<not> qualifies (strip_nonword ''was'')"
    by (simp add: char_eval name_eval)
  have q5: "\<not> qualifies (strip_nonword ''here'')"
    by (simp add: char_eval name_eval)
  have a3: "\<forall>i. \<not> pair_at ?ws i"
  proof
    fix i :: nat
    have "i = 0 \<or> i = 1 \<or> i = 2 \<or> i = 3 \<or> i = 4 \<or> 5 \<le> i"
      by arith
    then show "\<not> pair_at ?ws i"
      using q0 q1 q2 q4 q5 by (auto simp: pair_at_def)
  qed
  from no_name_found [OF a1 a2 a3] show ?thesis .
qed

section \<open>The transcript of the scenario, and transcripts that begin with a name\<close>

text \<open>
  C1. On every transcript that begins as the one of the scenario, the pattern
  \<open>([A-Z][a-z]+)\s+here\b\<close> matches \<open>Johnson here\<close>, the only word before \<open>here\<close>:
  \<open>find_first_name\<close> returns \<open>Johnson\<close>, not \<open>Sarah\<close>, and the target file is
  \<open>Johnson.mp3\<close>.
\<close>

theorem sarah_johnson_here:
  "find_first_name (''Hey everyone, Sarah Johnson here, and today I'' @ [CHR 0x27] @ ''ll be...'' @ rest)
     = Inr (Some ''Johnson'')
   \<and> target_name (Some ''Johnson'') = Inr ''Johnson.mp3''"
proof -
  have m: "re_search here_pattern
             (take 500 (''Hey everyone, Sarah Johnson here, and today I'' @ [CHR 0x27] @ ''ll be...'' @ rest))
           = Some \<lparr>m_start = 20, m_end = 32, m_marks = (Some 20, Some 27)\<rparr>"
    by (simp add: char_eval rx_eval)
  have g: "match_group
             (take 500 (''Hey everyone, Sarah Johnson here, and today I'' @ [CHR 0x27] @ ''ll be...'' @ rest))
             \<lparr>m_start = 20, m_end = 32, m_marks = (Some 20, Some 27)\<rparr> 1 = ''Johnson''"
    by (simp add: rx_eval)
  have v: "isupper (hd ''Johnson'') \<and> length ''Johnson'' > 2 \<and> \<not> is_skip_word ''Johnson''"
    by (simp add: char_eval name_eval)
  have "candidate (here_pattern, 0)
          (take 500 (''Hey everyone, Sarah Johnson here, and today I'' @ [CHR 0x27] @ ''ll be...'' @ rest))
        = Inr (Some ''Johnson'')"
    using v by (simp only: candidate_here [OF m] g Let_def) simp
  then have "find_first_name
          (''Hey everyone, Sarah Johnson here, and today I'' @ [CHR 0x27] @ ''ll be...'' @ rest)
        = Inr (Some ''Johnson'')"
    by (simp only: find_first_name_alt priority_patterns_def find_from.simps) simp
  then show ?thesis
    by (simp add: target_name_def first_token_no_space sanitize_word char_eval)
qed

lemma Rep1_greedy:
  assumes "xs \<noteq> []" and "\<forall>a\<in>set xs. cset_match c a"
      and "ys = [] \<or> \<not> cset_match c (hd ys)"
      and "rx_match ops (Some (last xs)) ys (pos + length xs) g = Some r"
  shows "rx_match (Rep1 c # ops) prev (xs @ ys) pos g = Some r"
  using assms
proof (induction xs arbitrary: prev pos)
  case Nil
  then show ?case by simp
next
  case (Cons x xs)
  show ?case
  proof (cases xs)
    case Nil
    have "rx_match (Rep1 c # ops) (Some x) ys (Suc pos) g = None"
      using Cons.prems(3) by (cases ys) auto
    with Cons.prems Nil show ?thesis
      by simp
  next
    case (Cons x' xs')
    with Cons.prems have "rx_match (Rep1 c # ops) (Some x) (xs @ ys) (Suc pos) g = Some r"
      by (intro Cons.IH) auto
    with Cons.prems show ?thesis
      by simp
  qed
qed


lemma letter_range_upper:
  "in_range 65 90 x \<or> in_range 97 122 x \<Longrightarrow> cset_match (Range CHR ''A'' CHR ''Z'') x"
  by (auto simp: in_range_def of_char_upper_char)

lemma letter_range_lower:
  "in_range 65 90 x \<or> in_range 97 122 x \<Longrightarrow> cset_match (Range CHR ''a'' CHR ''z'') x"
  by (cases "isupper x") (auto simp: in_range_def of_char_lower_char isupper_def)

lemma space_not_range_lower: "isspace x \<Longrightarrow> \<not> cset_match (Range CHR ''a'' CHR ''z'') x"
  using range_lower_letter [of x] ascii_letters_no_space [of "[x]"]
  by (auto simp: ascii_letters_def)

lemma lower_char_ascii:
  assumes "lower_char x = y" and "in_range 97 122 y"
  shows "in_range 65 90 x \<or> in_range 97 122 x"
proof (cases "isupper x")
  case True
  then have "(of_char y :: nat) = of_char x + 32"
    using assms(1) of_char_lower_char by blast
  with assms(2) show ?thesis
    by (auto simp: in_range_def)
next
  case False
  with assms show ?thesis
    by (simp add: lower_char_def)
qed

lemma here_literal_match:
  assumes "lower h = ''here''" and "rest = [] \<or> \<not> word_char (hd rest)"
  shows "rx_match (lits ''here'' @ [WordB]) p0 (h @ rest) q g = Some (q + 4, g)"
    and "h \<noteq> []" and "\<not> isspace (hd h)"
proof -
  from assms(1) obtain h1 h2 h3 h4 where h: "h = [h1, h2, h3, h4]"
      and l: "lower_char h1 = CHR ''h''" "lower_char h2 = CHR ''e''" "lower_char h3 = CHR ''r''"
        "lower_char h4 = CHR ''e''"
    by (auto simp: lower_def)
  have lc: "lower_char CHR ''h'' = CHR ''h''" "lower_char CHR ''e'' = CHR ''e''"
      "lower_char CHR ''r'' = CHR ''r''"
    by (simp_all add: char_eval)
  have "in_range 65 90 h4 \<or> in_range 97 122 h4"
    using l(4) by (rule lower_char_ascii) (simp add: in_range_def)
  then have w4: "word_char h4"
    using ascii_letters_word [of "[h4]"] by (simp add: ascii_letters_def)
  have "in_range 65 90 h1 \<or> in_range 97 122 h1"
    using l(1) by (rule lower_char_ascii) (simp add: in_range_def)
  then have s1: "\<not> isspace h1"
    using ascii_letters_no_space [of "[h1]"] by (simp add: ascii_letters_def)
  have b: "at_boundary (Some h4) rest"
    using w4 assms(2) by (cases rest) (auto simp: at_boundary_def)
  show "rx_match (lits ''here'' @ [WordB]) p0 (h @ rest) q g = Some (q + 4, g)"
    using h l lc b by (simp add: lits_def)
  show "h \<noteq> []" and "\<not> isspace (hd h)"
    using h s1 by simp_all
qed

lemma here_match_at_start:
  assumes "name = c # cs" and "cs \<noteq> []" and "ascii_letters name"
      and "ws \<noteq> []" and "\<forall>a\<in>set ws. isspace a"
      and "lower h = ''here''" and "rest = [] \<or> \<not> word_char (hd rest)"
  shows "rx_match here_pattern prev (name @ ws @ h @ rest) pos (None, None)
           = Some (pos + length name + length ws + 4, (Some pos, Some (pos + length name)))"
proof -
  let ?g = "(Some pos, Some (pos + length name))"
  let ?lit = "lits ''here'' @ [WordB]"
  note hl = here_literal_match [OF assms(6,7)]
  have sp: "rx_match (Rep1 Space # ?lit) (Some (last cs)) (ws @ h @ rest) (pos + length name) ?g
              = Some (pos + length name + length ws + 4, ?g)"
  proof (rule Rep1_greedy)
    show "ws \<noteq> []" by fact
    show "\<forall>a\<in>set ws. cset_match Space a"
      using assms(5) by simp
    show "h @ rest = [] \<or> \<not> cset_match Space (hd (h @ rest))"
      using hl(2,3) by simp
    show "rx_match ?lit (Some (last ws)) (h @ rest) (pos + length name + length ws) ?g
            = Some (pos + length name + length ws + 4, ?g)"
      by (rule hl(1))
  qed
  have cl: "rx_match (GroupClose # Rep1 Space # ?lit) (Some (last cs)) (ws @ h @ rest)
              (Suc pos + length cs) (Some pos, None)
            = Some (pos + length name + length ws + 4, ?g)"
    using sp assms(1) by simp
  have letters: "\<forall>a\<in>set cs. cset_match (Range CHR ''a'' CHR ''z'') a"
      and first: "cset_match (Range CHR ''A'' CHR ''Z'') c"
    using assms(1,3) letter_range_lower letter_range_upper by (auto simp: ascii_letters_def)
  have rp: "rx_match (Rep1 (Range CHR ''a'' CHR ''z'') # GroupClose # Rep1 Space # ?lit)
              (Some c) (cs @ ws @ h @ rest) (Suc pos) (Some pos, None)
            = Some (pos + length name + length ws + 4, ?g)"
  proof (rule Rep1_greedy)
    show "cs \<noteq> []" by fact
    show "\<forall>a\<in>set cs. cset_match (Range CHR ''a'' CHR ''z'') a" by fact
    show "ws @ h @ rest = [] \<or> \<not> cset_match (Range CHR ''a'' CHR ''z'') (hd (ws @ h @ rest))"
      using assms(4,5) space_not_range_lower by (cases ws) auto
    show "rx_match (GroupClose # Rep1 Space # ?lit) (Some (last cs)) (ws @ h @ rest)
            (Suc pos + length cs) (Some pos, None)
          = Some (pos + length name + length ws + 4, ?g)"
      by (rule cl)
  qed
  show ?thesis
    using rp first assms(1) by (simp add: here_pattern_def name_group_def)
qed

lemma search_from_first:
  "rx_match ops prev s pos (None, None) = Some (e, g) \<Longrightarrow>
   search_from ops prev s pos = Some \<lparr>m_start = pos, m_end = e, m_marks = g\<rparr>"
  by (cases s) simp_all

text \<open>
  A transcript that begins with a word of letters A to Z and a to z, then whitespace, then
  \<open>here\<close> in any casing, not followed by a word character, is a case of C2: the match
  starts at the first character and the word is the one found.
\<close>

lemma begins_with_name_here:
  assumes "take 500 text = name @ ws @ h @ rest"
      and "ascii_letters name" and "isupper (hd name)" and "length name > 2"
      and "ws \<noteq> []" and "\<forall>a\<in>set ws. isspace a"
      and "lower h = ''here''" and "rest = [] \<or> \<not> word_char (hd rest)"
      and "\<not> is_skip_word name"
  shows "find_first_name text = Inr (Some name)"
proof -
  from assms(4) obtain c cs where n: "name = c # cs" and cs: "cs \<noteq> []"
    by (cases name) force+
  let ?m = "\<lparr>m_start = 0, m_end = length name + length ws + 4,
             m_marks = (Some 0, Some (length name))\<rparr>"
  have "rx_match here_pattern None (name @ ws @ h @ rest) 0 (None, None)
          = Some (0 + length name + length ws + 4, (Some 0, Some (0 + length name)))"
    using n cs assms(2,5,6,7,8) by (rule here_match_at_start)
  then have m: "re_search here_pattern (take 500 text) = Some ?m"
    using search_from_first [of here_pattern None "name @ ws @ h @ rest" 0]
    by (simp add: re_search_def assms(1))
  have g: "match_group (take 500 text) ?m 1 = name"
    by (simp add: match_group_1 slice_def assms(1))
  have "candidate (here_pattern, 0) (take 500 text) = Inr (Some name)"
    using assms(3,4,9) by (simp only: candidate_here [OF m] g Let_def) simp
  then show ?thesis
    by (simp add: find_first_name_alt priority_patterns_def)
qed

end
